theory Spec2Isabelle
  imports Complex_Main "HOL-Library.Sublist" "HOL-Library.AList"
begin

section \<open>Strings and containers of the JavaScript source\<close>

text \<open>
  A JavaScript string is a sequence of UTF-16 code units. Every range of the source's
  regular expressions lies in the Basic Multilingual Plane, so one matched character is one
  code unit. A code unit is modelled as an integer (from 0 to 65535 in every real string).
\<close>

type_synonym jsstring = "int list"

text \<open>
  A JavaScript \<open>Set\<close> iterates in insertion order and ignores a value it already holds:
  a list without duplicates. \<open>setAdd\<close> is \<open>Set.prototype.add\<close>, \<open>setDelete\<close> is
  \<open>Set.prototype.delete\<close>. A \<open>Map\<close> is an association list in insertion order:
  \<open>map_of\<close> is \<open>get\<close>, \<open>AList.update\<close> is \<open>set\<close> (in place for a known key, at the end
  for a new one), \<open>AList.delete\<close> is \<open>delete\<close>.
\<close>

definition setAdd :: "'a list \<Rightarrow> 'a \<Rightarrow> 'a list" where
  "setAdd s x = (if x \<in> set s then s else s @ [x])"

definition setDelete :: "'a list \<Rightarrow> 'a \<Rightarrow> 'a list" where
  "setDelete s x = removeAll x s"

section \<open>The tokenizer (\<open>FileIndex.tokenize\<close>)\<close>

text \<open>
  The character class of \<open>cjkRegex\<close>, written in the source with the escapes
  u4E00-u9FFF, u3040-u309F and uAC00-uD7AF.
\<close>

definition isCJK :: "int \<Rightarrow> bool" where
  "isCJK c \<longleftrightarrow> (0x4E00 \<le> c \<and> c \<le> 0x9FFF) \<or> (0x3040 \<le> c \<and> c \<le> 0x309F)
     \<or> (0xAC00 \<le> c \<and> c \<le> 0xD7AF)"

text \<open>\<open>text.match(cjkRegex) || []\<close>: the matched characters, one string each, in text order.\<close>

definition cjkMatch :: "jsstring \<Rightarrow> jsstring list" where
  "cjkMatch text = map (\<lambda>c. [c]) (filter isCJK text)"

text \<open>The class \<open>\w\<close> of a regular expression without the unicode flag: \<open>[A-Za-z0-9_]\<close>.\<close>

definition isWordChar :: "int \<Rightarrow> bool" where
  "isWordChar c \<longleftrightarrow> (0x30 \<le> c \<and> c \<le> 0x39) \<or> (0x41 \<le> c \<and> c \<le> 0x5A) \<or> c = 0x5F
     \<or> (0x61 \<le> c \<and> c \<le> 0x7A)"

text \<open>
  \<open>String.prototype.toLowerCase\<close>, as far as \<open>\w\<close> can see it. The code units whose
  lower case contains an ASCII code unit are \<open>A\<close> to \<open>Z\<close>, U+212A (KELVIN SIGN, to \<open>k\<close>)
  and U+0130 (to \<open>i\<close> followed by U+0307). Every other code unit is mapped by JavaScript to
  code units outside ASCII, which \<open>\w\<close> and \<open>\b\<close> treat like the original; the model
  leaves those as they are.
\<close>

definition lowerUnit :: "int \<Rightarrow> jsstring" where
  "lowerUnit c =
     (if 0x41 \<le> c \<and> c \<le> 0x5A then [c + 32]
      else if c = 0x212A then [0x6B]
      else if c = 0x130 then [0x69, 0x307]
      else [c])"

definition toLowerCase :: "jsstring \<Rightarrow> jsstring" where
  "toLowerCase s = concat (map lowerUnit s)"

text \<open>
  \<open>s.match(/\b\w+\b/g) || []\<close>. A match starts at a word boundary followed by a word
  character and the greedy \<open>\w+\<close> runs to the next boundary, so the matches are the
  maximal runs of word characters, left to right. \<open>wordRuns cur s\<close> scans \<open>s\<close> with the
  run \<open>cur\<close> already open.
\<close>

fun wordRuns :: "jsstring \<Rightarrow> jsstring \<Rightarrow> jsstring list" where
  "wordRuns cur [] = (if cur = [] then [] else [cur])"
| "wordRuns cur (c # cs) =
     (if isWordChar c then wordRuns (cur @ [c]) cs
      else (if cur = [] then [] else [cur]) @ wordRuns [] cs)"

definition wordMatch :: "jsstring \<Rightarrow> jsstring list" where
  "wordMatch s = wordRuns [] s"

text \<open>
  \<open>tokenize(text)\<close>: a \<open>Set\<close> that receives the CJK matches and then the words of the
  lower-cased text.
\<close>

definition tokenize :: "jsstring \<Rightarrow> jsstring list" where
  "tokenize text = foldl setAdd (foldl setAdd [] (cjkMatch text)) (wordMatch (toLowerCase text))"

text \<open>The Katakana block of Unicode, U+30A0 to U+30FF.\<close>

definition isKatakana :: "int \<Rightarrow> bool" where
  "isKatakana c \<longleftrightarrow> 0x30A0 \<le> c \<and> c \<le> 0x30FF"

section \<open>The inverted index (\<open>class FileIndex\<close>)\<close>

text \<open>
  \<open>files\<close> maps a path to \<open>{filename, content, mtime}\<close>, \<open>filesList\<close> is the ordered
  list of \<open>{path, name}\<close> entries, \<open>wordIndex\<close> maps a word to the \<open>Set\<close> of positions in
  \<open>filesList\<close>. A modification time (\<open>stat.mtimeMs\<close>) is only stored and compared for
  equality; it is modelled as an integer.
\<close>

record fileData =
  filename :: jsstring
  content :: jsstring
  mtime :: int

record fileEntry =
  path :: jsstring
  name :: jsstring

record FileIndex =
  files :: "(jsstring \<times> fileData) list"
  wordIndex :: "(jsstring \<times> nat list) list"
  filesList :: "fileEntry list"

text \<open>The constructor.\<close>

definition newFileIndex :: FileIndex where
  "newFileIndex = \<lparr>files = [], wordIndex = [], filesList = []\<rparr>"

text \<open>
  An exception is a value. A method that can throw returns its completion together with
  the state it leaves behind, since the callers that catch go on with that state.
\<close>

datatype error = TypeError | ReadError | ReferenceError | SyntaxError

datatype 'a completion = Normal 'a | Throw error

text \<open>
  The body of the loop over \<open>words\<close> in \<open>addFile\<close> and \<open>_rebuildIndices\<close>:
  \<^verbatim>\<open>if (!wordIndex.has(word)) wordIndex.set(word, new Set()); wordIndex.get(word).add(i)\<close>.
\<close>

definition indexWord :: "nat \<Rightarrow> (jsstring \<times> nat list) list \<Rightarrow> jsstring \<Rightarrow> (jsstring \<times> nat list) list" where
  "indexWord i wi word =
     (let wi1 = (if map_of wi word = None then AList.update word [] wi else wi)
      in case map_of wi1 word of
           None \<Rightarrow> wi1
         | Some st \<Rightarrow> AList.update word (setAdd st i) wi1)"

definition addFile :: "jsstring \<Rightarrow> jsstring \<Rightarrow> jsstring \<Rightarrow> int \<Rightarrow> FileIndex \<Rightarrow> FileIndex" where
  "addFile filepath fname text mt s =
     (let fileIndex = length (filesList s);
          s1 = s\<lparr>files := AList.update filepath \<lparr>filename = fname, content = text, mtime = mt\<rparr> (files s)\<rparr>;
          s2 = s1\<lparr>filesList := filesList s1 @ [\<lparr>path = filepath, name = fname\<rparr>]\<rparr>;
          words = tokenize text
      in s2\<lparr>wordIndex := foldl (indexWord fileIndex) (wordIndex s2) words\<rparr>)"

text \<open>
  \<open>_rebuildIndices\<close>. \<open>rebuildLoop\<close> is the loop over \<open>i\<close> with the local
  \<open>newWordIndex\<close>; \<open>this.files.get(path).content\<close> throws a TypeError when the path has no
  entry in \<open>files\<close>, and then \<open>this.wordIndex\<close> keeps its old value.
\<close>

fun rebuildLoop :: "(jsstring \<times> fileData) list \<Rightarrow> fileEntry list \<Rightarrow> nat \<Rightarrow> (jsstring \<times> nat list) list
    \<Rightarrow> (jsstring \<times> nat list) list option" where
  "rebuildLoop fm [] i newWordIndex = Some newWordIndex"
| "rebuildLoop fm (f # fs) i newWordIndex =
     (case map_of fm (path f) of
        None \<Rightarrow> None
      | Some fd \<Rightarrow> rebuildLoop fm fs (Suc i) (foldl (indexWord i) newWordIndex (tokenize (content fd))))"

definition rebuildIndices :: "FileIndex \<Rightarrow> unit completion \<times> FileIndex" where
  "rebuildIndices s =
     (case rebuildLoop (files s) (filesList s) 0 [] of
        None \<Rightarrow> (Throw TypeError, s)
      | Some newWordIndex \<Rightarrow> (Normal (), s\<lparr>wordIndex := newWordIndex\<rparr>))"

text \<open>\<open>Array.prototype.findIndex\<close>, with \<open>None\<close> for \<open>-1\<close>.\<close>

fun findIndex :: "('a \<Rightarrow> bool) \<Rightarrow> 'a list \<Rightarrow> nat option" where
  "findIndex P [] = None"
| "findIndex P (x # xs) = (if P x then Some 0 else map_option Suc (findIndex P xs))"

text \<open>\<open>this.wordIndex.get(word)?.delete(fileIndex)\<close>.\<close>

definition unindexWord :: "nat \<Rightarrow> (jsstring \<times> nat list) list \<Rightarrow> jsstring \<Rightarrow> (jsstring \<times> nat list) list" where
  "unindexWord i wi word =
     (case map_of wi word of
        None \<Rightarrow> wi
      | Some st \<Rightarrow> AList.update word (setDelete st i) wi)"

definition removeFile :: "jsstring \<Rightarrow> FileIndex \<Rightarrow> unit completion \<times> FileIndex" where
  "removeFile filepath s =
     (case map_of (files s) filepath of
        None \<Rightarrow> (Normal (), s)
      | Some fd \<Rightarrow>
          (case findIndex (\<lambda>f. path f = filepath) (filesList s) of
             None \<Rightarrow> (Normal (), s)
           | Some fileIndex \<Rightarrow>
               (let words = tokenize (content fd);
                    s1 = s\<lparr>wordIndex := foldl (unindexWord fileIndex) (wordIndex s) words\<rparr>;
                    s2 = s1\<lparr>files := AList.delete filepath (files s1)\<rparr>;
                    s3 = s2\<lparr>filesList := take fileIndex (filesList s2) @ drop (Suc fileIndex) (filesList s2)\<rparr>
                in rebuildIndices s3)))"

subsection \<open>Serialization\<close>

text \<open>
  \<open>serialize\<close> writes \<open>{files: Array.from(this.files.entries()), filesList}\<close> as JSON and
  \<open>deserialize\<close> parses it. The JSON text is not modelled: the snapshot is the data that
  \<open>JSON.parse\<close> gives back from what \<open>JSON.stringify\<close> wrote. \<open>newMap\<close> is
  \<open>new Map(entries)\<close>.
\<close>

record snapshot =
  snap_files :: "(jsstring \<times> fileData) list"
  snap_filesList :: "fileEntry list"

definition serialize :: "FileIndex \<Rightarrow> snapshot" where
  "serialize s = \<lparr>snap_files = files s, snap_filesList = filesList s\<rparr>"

definition newMap :: "('k \<times> 'v) list \<Rightarrow> ('k \<times> 'v) list" where
  "newMap entries = foldl (\<lambda>m (k, v). AList.update k v m) [] entries"

definition deserialize :: "snapshot \<Rightarrow> FileIndex \<Rightarrow> unit completion \<times> FileIndex" where
  "deserialize d s = rebuildIndices (s\<lparr>files := newMap (snap_files d), filesList := snap_filesList d\<rparr>)"

section \<open>Search (\<open>FileIndex.search\<close>)\<close>

subsection \<open>String operations\<close>

text \<open>\<open>content.split('\n')\<close>: \<open>splitNL cur s\<close> scans \<open>s\<close> with the line \<open>cur\<close> open.\<close>

fun splitNL :: "jsstring \<Rightarrow> jsstring \<Rightarrow> jsstring list" where
  "splitNL cur [] = [cur]"
| "splitNL cur (c # cs) = (if c = 10 then cur # splitNL [] cs else splitNL (cur @ [c]) cs)"

definition splitLines :: "jsstring \<Rightarrow> jsstring list" where
  "splitLines s = splitNL [] s"

text \<open>
  \<open>line.indexOf(query, position)\<close>, with \<open>None\<close> for \<open>-1\<close>: the least index from
  \<open>min position (length line)\<close> on at which \<open>query\<close> occurs. \<open>findFrom\<close> searches a suffix.
\<close>

fun findFrom :: "jsstring \<Rightarrow> jsstring \<Rightarrow> nat option" where
  "findFrom q [] = (if q = [] then Some 0 else None)"
| "findFrom q (c # cs) = (if prefix q (c # cs) then Some 0 else map_option Suc (findFrom q cs))"

definition indexOf :: "jsstring \<Rightarrow> jsstring \<Rightarrow> nat \<Rightarrow> nat option" where
  "indexOf line q position =
     map_option (\<lambda>k. min position (length line) + k) (findFrom q (drop position line))"

text \<open>\<open>line.includes(query)\<close> (\<open>includes\<close> is a keyword of Isabelle).\<close>

definition stringIncludes :: "jsstring \<Rightarrow> jsstring \<Rightarrow> bool" where
  "stringIncludes line q \<longleftrightarrow> indexOf line q 0 \<noteq> None"

text \<open>
  White space and line terminators, as \<open>String.prototype.trim\<close> strips them.
\<close>

definition isSpace :: "int \<Rightarrow> bool" where
  "isSpace c \<longleftrightarrow> (9 \<le> c \<and> c \<le> 13) \<or> c = 0x20 \<or> c = 0xA0 \<or> c = 0x1680
     \<or> (0x2000 \<le> c \<and> c \<le> 0x200A) \<or> c = 0x2028 \<or> c = 0x2029 \<or> c = 0x202F \<or> c = 0x205F
     \<or> c = 0x3000 \<or> c = 0xFEFF"

definition trim :: "jsstring \<Rightarrow> jsstring" where
  "trim s = rev (dropWhile isSpace (rev (dropWhile isSpace s)))"

subsection \<open>Programs over the index\<close>

text \<open>
  \<open>search\<close> is a method of the index object: it runs from an index state, may throw, and
  its \<open>while\<close> loop has no bound, so a run ends in a completion and a state, or does not end
  (\<open>None\<close>). \<open>look\<close> is a read of \<open>this\<close>.
\<close>

type_synonym 'a prog = "FileIndex \<Rightarrow> ('a completion \<times> FileIndex) option"

definition ret :: "'a \<Rightarrow> 'a prog" where
  "ret x = (\<lambda>s. Some (Normal x, s))"

definition raise :: "error \<Rightarrow> 'a prog" where
  "raise e = (\<lambda>s. Some (Throw e, s))"

definition look :: "(FileIndex \<Rightarrow> 'a) \<Rightarrow> 'a prog" where
  "look f = (\<lambda>s. Some (Normal (f s), s))"

definition orDiverge :: "'a option \<Rightarrow> 'a prog" where
  "orDiverge r = (\<lambda>s. case r of None \<Rightarrow> None | Some x \<Rightarrow> Some (Normal x, s))"

definition andThen :: "'a prog \<Rightarrow> ('a \<Rightarrow> 'b prog) \<Rightarrow> 'b prog" where
  "andThen m f =
     (\<lambda>s. case m s of
        None \<Rightarrow> None
      | Some (Throw e, s') \<Rightarrow> Some (Throw e, s')
      | Some (Normal x, s') \<Rightarrow> f x s')"

text \<open>A loop over a list with a local accumulator.\<close>

fun foldProg :: "('b \<Rightarrow> 'a \<Rightarrow> 'b prog) \<Rightarrow> 'b \<Rightarrow> 'a list \<Rightarrow> 'b prog" where
  "foldProg f acc [] = ret acc"
| "foldProg f acc (x # xs) = andThen (f acc x) (\<lambda>acc'. foldProg f acc' xs)"

text \<open>\<open>this.files.get(p).content\<close>: a TypeError when \<open>p\<close> has no entry.\<close>

definition getContent :: "jsstring \<Rightarrow> jsstring prog" where
  "getContent p =
     andThen (look (\<lambda>s. map_of (files s) p))
       (\<lambda>fd. case fd of None \<Rightarrow> raise TypeError | Some d \<Rightarrow> ret (content d))"

subsection \<open>Phrase mode\<close>

text \<open>
  The inner loop
  \<^verbatim>\<open>while ((searchPos = line.indexOf(query, searchPos)) !== -1) { count++; searchPos += query.length; }\<close>.
  It does not end for the empty query.
\<close>

partial_function (option) countLoop :: "jsstring \<Rightarrow> jsstring \<Rightarrow> nat \<Rightarrow> nat \<Rightarrow> nat option" where
  "countLoop line query searchPos count =
     (case indexOf line query searchPos of
        None \<Rightarrow> Some count
      | Some k \<Rightarrow> countLoop line query (k + length query) (count + 1))"

declare countLoop.simps [code]

text \<open>The loop over the lines of one document; \<open>count\<close> runs on from line to line.\<close>

fun countLines :: "jsstring \<Rightarrow> jsstring list \<Rightarrow> nat \<Rightarrow> nat option" where
  "countLines query [] count = Some count"
| "countLines query (line # lines) count =
     (case countLoop line query 0 count of
        None \<Rightarrow> None
      | Some count' \<Rightarrow> countLines query lines count')"

record matchedFile =
  m_index :: nat
  m_path :: jsstring
  m_name :: jsstring
  m_content :: jsstring
  matches :: nat

definition phraseStep :: "jsstring \<Rightarrow> matchedFile list \<Rightarrow> nat \<Rightarrow> matchedFile list prog" where
  "phraseStep query matchedFiles i =
     andThen (look (\<lambda>s. filesList s ! i)) (\<lambda>fileInfo.
     andThen (getContent (path fileInfo)) (\<lambda>text.
     andThen (orDiverge (countLines query (splitLines text) 0)) (\<lambda>count.
     ret (if count > 0
          then matchedFiles @ [\<lparr>m_index = i, m_path = path fileInfo, m_name = name fileInfo,
                                m_content = text, matches = count\<rparr>]
          else matchedFiles))))"

definition phraseMode :: "jsstring \<Rightarrow> matchedFile list prog" where
  "phraseMode query =
     andThen (look (\<lambda>s. length (filesList s))) (\<lambda>n. foldProg (phraseStep query) [] [0..<n])"

subsection \<open>Token mode\<close>

text \<open>\<open>const indices = this.wordIndex.get(token) || new Set()\<close>, added to the local set.\<close>

definition tokenStep :: "nat list \<Rightarrow> jsstring \<Rightarrow> nat list prog" where
  "tokenStep matchingFileIndices token =
     andThen (look (\<lambda>s. case map_of (wordIndex s) token of None \<Rightarrow> [] | Some indices \<Rightarrow> indices))
       (\<lambda>indices. ret (foldl setAdd matchingFileIndices indices))"

text \<open>
  The object built for one index by \<open>Array.from(matchingFileIndices).map\<close>;
  \<open>this.filesList[i].path\<close> throws a TypeError when \<open>i\<close> is not a position of the list.
\<close>

definition mkMatched :: "matchedFile list \<Rightarrow> nat \<Rightarrow> matchedFile list prog" where
  "mkMatched acc i =
     andThen (look filesList) (\<lambda>fl.
       if i < length fl
       then andThen (getContent (path (fl ! i))) (\<lambda>text.
              ret (acc @ [\<lparr>m_index = i, m_path = path (fl ! i), m_name = name (fl ! i),
                           m_content = text, matches = 0\<rparr>]))
       else raise TypeError)"

text \<open>\<open>file.matches++\<close> for every line that includes the query.\<close>

definition countMatches :: "jsstring \<Rightarrow> matchedFile \<Rightarrow> matchedFile" where
  "countMatches query file =
     file\<lparr>matches := matches file
       + length (filter (\<lambda>line. stringIncludes line query) (splitLines (m_content file)))\<rparr>"

definition tokenMode :: "jsstring \<Rightarrow> matchedFile list prog" where
  "tokenMode query =
     (let queryTokens = tokenize query
      in andThen (foldProg tokenStep [] queryTokens) (\<lambda>matchingFileIndices.
         andThen (foldProg mkMatched [] matchingFileIndices) (\<lambda>matchedFiles.
         ret (map (countMatches query) matchedFiles))))"

subsection \<open>Ranking, hits and pagination\<close>

text \<open>
  The candidates of a query, before ranking: the \<open>if (isMultiCJK) ... else ...\<close> of
  \<open>search\<close>.
\<close>

definition matchFiles :: "jsstring \<Rightarrow> matchedFile list prog" where
  "matchFiles query =
     (let cjkChars = cjkMatch query;
          isMultiCJK = (length cjkChars > 1)
      in if isMultiCJK then phraseMode query else tokenMode query)"

text \<open>
  \<open>matchedFiles.sort((a, b) => b.matches - a.matches)\<close>: a stable sort, descending in
  \<open>matches\<close>.
\<close>

definition rank :: "matchedFile list \<Rightarrow> matchedFile list" where
  "rank matchedFiles = sort_key (\<lambda>f. - int (matches f)) matchedFiles"

record hit =
  lineNum :: nat
  hit_content :: jsstring

record fileResult =
  r_path :: jsstring
  r_name :: jsstring
  hits :: "hit list"

definition extractHits :: "jsstring \<Rightarrow> jsstring list \<Rightarrow> hit list" where
  "extractHits query lines =
     map (\<lambda>(i, line). \<lparr>lineNum = i + 1, hit_content = trim line\<rparr>)
       (filter (\<lambda>(i, line). stringIncludes line query) (enumerate 0 lines))"

definition toResult :: "jsstring \<Rightarrow> matchedFile \<Rightarrow> fileResult" where
  "toResult query file =
     \<lparr>r_path = m_path file, r_name = m_name file,
      hits = take 3 (extractHits query (splitLines (m_content file)))\<rparr>"

record searchPage =
  results :: "fileResult list"
  page :: int
  totalPages :: int
  total :: nat

text \<open>
  \<open>Math.ceil(n / perPage)\<close> for a positive integer \<open>perPage\<close>. The page is an integer
  and the page size a positive integer in the model (15 is the default and what
  \<open>searchFiles\<close> uses); for a page size of zero JavaScript divides to \<open>Infinity\<close> or
  \<open>NaN\<close>, which the model does not cover.
\<close>

definition ceilDiv :: "nat \<Rightarrow> nat \<Rightarrow> int" where
  "ceilDiv n d = int ((n + d - 1) div d)"

definition paginate :: "fileResult list \<Rightarrow> int \<Rightarrow> nat \<Rightarrow> searchPage" where
  "paginate rs pg perPage =
     (let tp = ceilDiv (length rs) perPage;
          pageNum = max 1 (min pg tp);
          start = nat ((pageNum - 1) * int perPage)
      in \<lparr>results = take perPage (drop start rs), page = pageNum, totalPages = tp,
          total = length rs\<rparr>)"

definition search :: "jsstring \<Rightarrow> int \<Rightarrow> nat \<Rightarrow> searchPage prog" where
  "search query pg perPage =
     andThen (matchFiles query) (\<lambda>matchedFiles.
       ret (paginate (map (toResult query) (rank matchedFiles)) pg perPage))"

text \<open>The exported \<open>searchFiles(db, query, page)\<close>, with \<open>db\<close> the index state.\<close>

definition searchFiles :: "jsstring \<Rightarrow> int \<Rightarrow> searchPage prog" where
  "searchFiles query pg =
     (if trim query = []
      then ret \<lparr>results = [], page = 1, totalPages = 0, total = 0\<rparr>
      else search (trim query) pg 15)"

section \<open>Synchronization with the file system\<close>

text \<open>
  \<open>fs.readFileSync(filepath, 'utf-8')\<close> gives the content of a file or throws; a file
  system is a function from paths to contents, \<open>None\<close> where the read throws. The table
  \<open>currentFiles\<close> (a \<open>Map\<close> filled by \<open>collectFiles\<close>) and the parsed object
  \<open>oldMTimes\<close> are association lists from paths to modification times; \<open>map_of\<close> is
  \<open>currentFiles.get\<close> and \<open>oldMTimes[filepath]\<close>, and the keys of a \<open>Map\<close> or of an object
  are distinct. A run of a synchronization carries the index and the list of the paths it
  has read. Writing the cache files is not part of the model.
\<close>

type_synonym filesystem = "jsstring \<Rightarrow> jsstring option"

type_synonym syncState = "FileIndex \<times> jsstring list"

text \<open>
  \<open>path.basename\<close> for the paths that \<open>collectFiles\<close> builds (a directory joined with
  a file name ending in \<open>.md\<close>): what follows the last slash.
\<close>

definition basename :: "jsstring \<Rightarrow> jsstring" where
  "basename p = rev (takeWhile (\<lambda>c. c \<noteq> 47) (rev p))"

text \<open>
  The three statements that \<open>initializeIndex\<close> and \<open>rebuildIndexCache\<close> both run for
  a changed file:
  \<^verbatim>\<open>if (index.files.has(filepath)) index.removeFile(filepath);\<close>
  \<^verbatim>\<open>const content = fs.readFileSync(filepath, 'utf-8');\<close>
  \<^verbatim>\<open>index.addFile(filepath, path.basename(filepath), content, mtime);\<close>
\<close>

definition reindexFile :: "filesystem \<Rightarrow> jsstring \<Rightarrow> int \<Rightarrow> syncState \<Rightarrow> unit completion \<times> syncState" where
  "reindexFile fs filepath mt st =
     (case st of (s, rd) \<Rightarrow>
        (case (if map_of (files s) filepath \<noteq> None then removeFile filepath s else (Normal (), s)) of
           (Throw e, s1) \<Rightarrow> (Throw e, (s1, rd))
         | (Normal u, s1) \<Rightarrow>
             (case fs filepath of
                None \<Rightarrow> (Throw ReadError, (s1, rd @ [filepath]))
              | Some text \<Rightarrow>
                  (Normal (), (addFile filepath (basename filepath) text mt s1, rd @ [filepath])))))"

text \<open>
  \<open>initializeIndex\<close>, the loop over \<open>currentFiles\<close>: the three statements are inside
  \<open>try\<close>, and \<open>catch\<close> logs and goes on with the next file.
\<close>

fun indexChangedFiles :: "filesystem \<Rightarrow> (jsstring \<times> int) list \<Rightarrow> (jsstring \<times> int) list \<Rightarrow> syncState \<Rightarrow> syncState" where
  "indexChangedFiles fs oldMTimes [] st = st"
| "indexChangedFiles fs oldMTimes ((filepath, mt) # rest) st =
     (if map_of oldMTimes filepath \<noteq> Some mt
      then indexChangedFiles fs oldMTimes rest (snd (reindexFile fs filepath mt st))
      else indexChangedFiles fs oldMTimes rest st)"

text \<open>
  The loop over \<open>Object.keys(oldMTimes)\<close> of both functions; \<open>removeFile\<close> is not inside a
  \<open>try\<close> of the loop.
\<close>

fun removeDeletedFiles :: "(jsstring \<times> int) list \<Rightarrow> jsstring list \<Rightarrow> FileIndex \<Rightarrow> unit completion \<times> FileIndex" where
  "removeDeletedFiles currentFiles [] s = (Normal (), s)"
| "removeDeletedFiles currentFiles (filepath # rest) s =
     (if map_of currentFiles filepath = None
      then (case removeFile filepath s of
              (Throw e, s1) \<Rightarrow> (Throw e, s1)
            | (Normal u, s1) \<Rightarrow> removeDeletedFiles currentFiles rest s1)
      else removeDeletedFiles currentFiles rest s)"

text \<open>
  The synchronization block of \<open>initializeIndex\<close>, lines 282 to 311 (from
  \<open>// Index new/changed files\<close> to the end of \<open>// Remove deleted files\<close>), run on an
  index \<open>s\<close>. It is a part of the function, not the function: \<open>initializeIndex\<close> below
  reaches it only after the \<open>require\<close> call of line 210 and the cache policy.
\<close>

definition syncIndex :: "filesystem \<Rightarrow> (jsstring \<times> int) list \<Rightarrow> (jsstring \<times> int) list \<Rightarrow> FileIndex
    \<Rightarrow> unit completion \<times> syncState" where
  "syncIndex fs currentFiles oldMTimes s =
     (case indexChangedFiles fs oldMTimes currentFiles (s, []) of (s1, rd) \<Rightarrow>
        (case removeDeletedFiles currentFiles (map fst oldMTimes) s1 of (c, s2) \<Rightarrow> (c, (s2, rd))))"

text \<open>
  \<open>rebuildIndexCache\<close>, the loop over \<open>currentFiles\<close>: no \<open>try\<close> inside the loop, an
  exception leaves it.
\<close>

fun rebuildChangedFiles :: "filesystem \<Rightarrow> (jsstring \<times> int) list \<Rightarrow> (jsstring \<times> int) list \<Rightarrow> syncState
    \<Rightarrow> unit completion \<times> syncState" where
  "rebuildChangedFiles fs oldMTimes [] st = (Normal (), st)"
| "rebuildChangedFiles fs oldMTimes ((filepath, mt) # rest) st =
     (if map_of oldMTimes filepath \<noteq> Some mt
      then (case reindexFile fs filepath mt st of
              (Throw e, st1) \<Rightarrow> (Throw e, st1)
            | (Normal u, st1) \<Rightarrow> rebuildChangedFiles fs oldMTimes rest st1)
      else rebuildChangedFiles fs oldMTimes rest st)"

text \<open>
  The synchronization block of \<open>rebuildIndexCache\<close>, lines 388 to 416 inside its
  \<open>try\<close>; the \<open>catch\<close> at the end of the function logs the exception, and the index
  stays as the exception left it. The completion says how the block ended. The function as
  a whole, with the \<open>require\<close> call of line 379 before the block, is
  \<open>scheduledRebuild\<close> below.
\<close>

definition rebuildIndexCache :: "filesystem \<Rightarrow> (jsstring \<times> int) list \<Rightarrow> (jsstring \<times> int) list \<Rightarrow> FileIndex
    \<Rightarrow> unit completion \<times> syncState" where
  "rebuildIndexCache fs currentFiles oldMTimes s =
     (case rebuildChangedFiles fs oldMTimes currentFiles (s, []) of
        (Throw e, st) \<Rightarrow> (Throw e, st)
      | (Normal u, (s1, rd)) \<Rightarrow>
          (case removeDeletedFiles currentFiles (map fst oldMTimes) s1 of (c, s2) \<Rightarrow> (c, (s2, rd))))"

subsection \<open>The functions around the synchronization blocks\<close>

text \<open>
  \<open>indexer.js\<close> is an ES module: it uses \<open>import\<close>, \<open>export\<close> and \<open>import.meta.url\<close>,
  and \<open>server.js\<close> imports it. Lines 210 and 379 call \<open>require('crypto')\<close>, and no
  \<open>require\<close> is imported or created in the module. Node, which the Dockerfile and the
  README start the server with, binds no \<open>require\<close> in an ES module, so the call throws a
  ReferenceError there. Whether the runtime binds \<open>require\<close> is the parameter
  \<open>requireBound\<close> of the model: \<open>False\<close> under Node. The hash that the call computes only
  names the two cache files; the model is given what these files hold.

  A cache file is missing, or it is there and reading or parsing it throws, or it holds a
  value. \<open>JSON.parse(fs.readFileSync(file, 'utf-8'))\<close> is \<open>readParsed\<close>.
\<close>

datatype 'a stored = Missing | Unreadable | Stored 'a

definition existsSync :: "'a stored \<Rightarrow> bool" where
  "existsSync f \<longleftrightarrow> f \<noteq> Missing"

definition readParsed :: "'a stored \<Rightarrow> error + 'a" where
  "readParsed f = (case f of Missing \<Rightarrow> Inl ReadError | Unreadable \<Rightarrow> Inl SyntaxError | Stored x \<Rightarrow> Inr x)"

text \<open>
  \<open>index.deserialize(fs.readFileSync(cacheFile, 'utf-8'))\<close>: when reading or parsing
  throws, the index is as before; otherwise \<open>deserialize\<close> runs on the parsed snapshot.
\<close>

definition loadCache :: "snapshot stored \<Rightarrow> FileIndex \<Rightarrow> unit completion \<times> FileIndex" where
  "loadCache f s =
     (case readParsed f of
        Inl e \<Rightarrow> (Throw e, s)
      | Inr d \<Rightarrow> deserialize d s)"

text \<open>\<open>index.files.clear(); index.filesList = []; index.wordIndex.clear();\<close>\<close>

definition clearIndex :: "FileIndex \<Rightarrow> FileIndex" where
  "clearIndex s = s\<lparr>files := [], filesList := [], wordIndex := []\<rparr>"

text \<open>
  The comparison of the cached modification times with the current files (lines 232 to
  242): the numbers of entries differ, or some current file has another time in the cache.
\<close>

definition mtimesChanged :: "(jsstring \<times> int) list \<Rightarrow> (jsstring \<times> int) list \<Rightarrow> bool" where
  "mtimesChanged cachedMTimes currentFiles \<longleftrightarrow>
     length cachedMTimes \<noteq> length currentFiles
     \<or> list_ex (\<lambda>(filepath, mt). map_of cachedMTimes filepath \<noteq> Some mt) currentFiles"

text \<open>
  Lines 226 to 261: with both cache files there, the unchanged case loads the cache and
  returns (\<open>Loaded\<close>); an exception inside the \<open>try\<close> sets \<open>needsRebuild\<close>. \<open>Continue\<close>
  carries \<open>needsRebuild\<close> and the index as the block leaves it.
\<close>

datatype fastPathResult = Loaded FileIndex | Continue bool FileIndex

definition fastPath :: "(jsstring \<times> int) list \<Rightarrow> snapshot stored \<Rightarrow> (jsstring \<times> int) list stored
    \<Rightarrow> FileIndex \<Rightarrow> fastPathResult" where
  "fastPath currentFiles cacheFile mTimeFile s =
     (if existsSync cacheFile \<and> existsSync mTimeFile
      then (case readParsed mTimeFile of
              Inl e \<Rightarrow> Continue True s
            | Inr cachedMTimes \<Rightarrow>
                if \<not> mtimesChanged cachedMTimes currentFiles
                then (case loadCache cacheFile s of
                        (Normal u, s1) \<Rightarrow> Loaded s1
                      | (Throw e, s1) \<Rightarrow> Continue True s1)
                else Continue False s)
      else Continue False s)"

text \<open>
  Lines 263 to 280: a full build starts from the cleared index, a delta build from the
  loaded cache, or from the cleared index when loading throws.
\<close>

definition prepareIndex :: "bool \<Rightarrow> snapshot stored \<Rightarrow> FileIndex \<Rightarrow> FileIndex" where
  "prepareIndex needsRebuild cacheFile s =
     (if needsRebuild \<or> \<not> existsSync cacheFile then clearIndex s
      else (case loadCache cacheFile s of
              (Normal u, s1) \<Rightarrow> s1
            | (Throw e, s1) \<Rightarrow> clearIndex s1))"

text \<open>
  \<open>initializeIndex(dataDir, autoRebuildHours)\<close>. The module variable \<open>index\<close> is the last
  argument and comes back with the completion and the paths read. \<open>currentFiles\<close> is what
  \<open>collectFiles(dataDir)\<close> fills in. Line 207 assigns the new index before line 210 calls
  \<open>require\<close>. Line 285 parses the modification-time file outside any \<open>try\<close>. Writing the
  cache files (in a \<open>try\<close> of its own) and arming the timer are not part of the model.
\<close>

definition initializeIndex :: "bool \<Rightarrow> filesystem \<Rightarrow> (jsstring \<times> int) list \<Rightarrow> snapshot stored
    \<Rightarrow> (jsstring \<times> int) list stored \<Rightarrow> FileIndex option
    \<Rightarrow> unit completion \<times> FileIndex option \<times> jsstring list" where
  "initializeIndex requireBound fs currentFiles cacheFile mTimeFile index =
     (case index of
        Some s \<Rightarrow> (Normal (), Some s, [])
      | None \<Rightarrow>
          if \<not> requireBound then (Throw ReferenceError, Some newFileIndex, [])
          else (case fastPath currentFiles cacheFile mTimeFile newFileIndex of
                  Loaded s1 \<Rightarrow> (Normal (), Some s1, [])
                | Continue needsRebuild s1 \<Rightarrow>
                    (let s2 = prepareIndex needsRebuild cacheFile s1
                     in case (if existsSync mTimeFile then readParsed mTimeFile else Inr []) of
                          Inl e \<Rightarrow> (Throw e, Some s2, [])
                        | Inr oldMTimes \<Rightarrow>
                            (case syncIndex fs currentFiles oldMTimes s2 of
                               (c, (s3, rd)) \<Rightarrow> (c, Some s3, rd)))))"

text \<open>
  The function \<open>rebuildIndexCache(dataDir)\<close> that the timer calls: \<open>if (!index) return\<close>,
  then, inside \<open>try\<close>, the \<open>require\<close> call, the parse of the modification-time file and
  the synchronization block; \<open>catch\<close> logs whatever is thrown. It returns nothing; the
  model returns the module variable \<open>index\<close> and the paths read.
\<close>

definition scheduledRebuild :: "bool \<Rightarrow> filesystem \<Rightarrow> (jsstring \<times> int) list
    \<Rightarrow> (jsstring \<times> int) list stored \<Rightarrow> FileIndex option \<Rightarrow> FileIndex option \<times> jsstring list" where
  "scheduledRebuild requireBound fs currentFiles mTimeFile index =
     (case index of
        None \<Rightarrow> (None, [])
      | Some s \<Rightarrow>
          if \<not> requireBound then (Some s, [])
          else (case (if existsSync mTimeFile then readParsed mTimeFile else Inr []) of
                  Inl e \<Rightarrow> (Some s, [])
                | Inr oldMTimes \<Rightarrow>
                    (case rebuildIndexCache fs currentFiles oldMTimes s of
                       (c, (s1, rd)) \<Rightarrow> (Some s1, rd))))"

section \<open>The invariant of the index\<close>

text \<open>
  \<open>getPost\<close> is the posting set of a word, empty for an unknown word (the
  \<open>wordIndex.get(token) || new Set()\<close> of \<open>search\<close>). \<open>tokensOf\<close> tokenizes the content that
  \<open>files\<close> holds for an entry of \<open>filesList\<close>, and \<open>holders fm i fl tok\<close> lists, in
  ascending order, the positions of the entries of \<open>fl\<close> (counted from \<open>i\<close>) whose tokens
  contain \<open>tok\<close>. An index is consistent when paths are unique, \<open>filesList\<close> and \<open>files\<close>
  hold the same paths, and every posting set is the list of its holders.
\<close>

definition getPost :: "(jsstring \<times> nat list) list \<Rightarrow> jsstring \<Rightarrow> nat list" where
  "getPost wi tok = (case map_of wi tok of None \<Rightarrow> [] | Some st \<Rightarrow> st)"

definition tokensOf :: "(jsstring \<times> fileData) list \<Rightarrow> fileEntry \<Rightarrow> jsstring list" where
  "tokensOf fm f = (case map_of fm (path f) of None \<Rightarrow> [] | Some fd \<Rightarrow> tokenize (content fd))"

definition holders :: "(jsstring \<times> fileData) list \<Rightarrow> nat \<Rightarrow> fileEntry list \<Rightarrow> jsstring \<Rightarrow> nat list" where
  "holders fm i fl tok = map fst (filter (\<lambda>(j, f). tok \<in> set (tokensOf fm f)) (enumerate i fl))"

definition consistent :: "FileIndex \<Rightarrow> bool" where
  "consistent s \<longleftrightarrow> distinct (map fst (files s)) \<and> distinct (map path (filesList s))
     \<and> set (map path (filesList s)) = set (map fst (files s))
     \<and> (\<forall>tok. getPost (wordIndex s) tok = holders (files s) 0 (filesList s) tok)"

section \<open>The candidates of a query, as the specification words them\<close>

text \<open>
  \<open>contentOf\<close> is the content that \<open>files\<close> holds for an entry of \<open>filesList\<close>.
  \<open>occurrences q line\<close> counts the occurrences of \<open>q\<close> in \<open>line\<close> from left to right without
  overlap, \<open>docCount\<close> adds them up over the lines of a document, and \<open>lineMatches\<close> is
  the number of lines that contain \<open>q\<close> as a contiguous substring. \<open>phraseCandidates\<close>
  are the documents with a positive \<open>docCount\<close>, in table order; \<open>candidateIndices\<close> are
  the members of the posting sets of the query's tokens, in order of first appearance, and
  \<open>tokenCandidates\<close> the documents at these positions.
\<close>

definition contentOf :: "(jsstring \<times> fileData) list \<Rightarrow> fileEntry \<Rightarrow> jsstring" where
  "contentOf fm f = (case map_of fm (path f) of None \<Rightarrow> [] | Some fd \<Rightarrow> content fd)"

function occurrences :: "jsstring \<Rightarrow> jsstring \<Rightarrow> nat" where
  "occurrences q line =
     (if q = [] \<or> line = [] then 0
      else if prefix q line then 1 + occurrences q (drop (length q) line)
      else occurrences q (tl line))"
  by pat_completeness auto
termination
  by (relation "measure (\<lambda>(q, line). length line)") auto

declare occurrences.simps [simp del]

definition docCount :: "jsstring \<Rightarrow> jsstring \<Rightarrow> nat" where
  "docCount q text = sum_list (map (occurrences q) (splitLines text))"

definition lineMatches :: "jsstring \<Rightarrow> jsstring \<Rightarrow> nat" where
  "lineMatches q text = length (filter (sublist q) (splitLines text))"

definition phraseCandidates :: "jsstring \<Rightarrow> FileIndex \<Rightarrow> matchedFile list" where
  "phraseCandidates q s =
     map (\<lambda>(i, f). \<lparr>m_index = i, m_path = path f, m_name = name f,
                     m_content = contentOf (files s) f,
                     matches = docCount q (contentOf (files s) f)\<rparr>)
       (filter (\<lambda>(i, f). 0 < docCount q (contentOf (files s) f)) (enumerate 0 (filesList s)))"

definition candidateIndices :: "jsstring \<Rightarrow> FileIndex \<Rightarrow> nat list" where
  "candidateIndices q s =
     foldl (\<lambda>acc tok. foldl setAdd acc (getPost (wordIndex s) tok)) [] (tokenize q)"

definition tokenCandidates :: "jsstring \<Rightarrow> FileIndex \<Rightarrow> matchedFile list" where
  "tokenCandidates q s =
     map (\<lambda>i. \<lparr>m_index = i, m_path = path (filesList s ! i), m_name = name (filesList s ! i),
               m_content = contentOf (files s) (filesList s ! i),
               matches = lineMatches q (contentOf (files s) (filesList s ! i))\<rparr>)
       (candidateIndices q s)"

text \<open>A program is read-only when every run that ends leaves the index as it found it.\<close>

definition readOnly :: "'a prog \<Rightarrow> bool" where
  "readOnly m \<longleftrightarrow> (\<forall>s c s'. m s = Some (c, s') \<longrightarrow> s' = s)"

section \<open>Example data\<close>

text \<open>
 \<open>str\<close> writes an ASCII literal as a JavaScript string. \<open>indexAB\<close> holds
  document A with the content \<open>alpha\<close> and document B with \<open>beta\<close>. \<open>indexXY\<close> holds
  document X, where the three ideographs U+65E5, U+672C, U+8A9E stand side by side on one
  line, and document Y, where each of them has a line of its own. \<open>manyDocs n\<close> holds
  \<open>n\<close> documents with the content \<open>x\<close>.
\<close>

definition str :: "string \<Rightarrow> jsstring" where
  "str cs = map of_char cs"

definition indexAB :: FileIndex where
  "indexAB = addFile (str ''/d/b.md'') (str ''b.md'') (str ''beta'') 2
     (addFile (str ''/d/a.md'') (str ''a.md'') (str ''alpha'') 1 newFileIndex)"

definition indexXY :: FileIndex where
  "indexXY = addFile (str ''/d/y.md'') (str ''y.md'') [0x65E5, 10, 0x672C, 10, 0x8A9E] 2
     (addFile (str ''/d/x.md'') (str ''x.md'') [97, 0x65E5, 0x672C, 0x8A9E, 98] 1 newFileIndex)"

text \<open>
  \<open>indexK\<close> holds document K, whose one line is the three Katakana letters U+30AB,
  U+30BF, U+30CA side by side, and document H, whose one line is the ideograph U+65E5.
\<close>

definition indexK :: FileIndex where
  "indexK = addFile (str ''/d/h.md'') (str ''h.md'') [0x65E5] 2
     (addFile (str ''/d/k.md'') (str ''k.md'') [0x30AB, 0x30BF, 0x30CA] 1 newFileIndex)"

fun manyDocs :: "nat \<Rightarrow> FileIndex" where
  "manyDocs 0 = newFileIndex"
| "manyDocs (Suc n) = addFile (replicate (Suc n) 97) (str ''x.md'') (str ''x'') 1 (manyDocs n)"

section \<open>Sequences of operations\<close>

text \<open>
  A sequence of \<open>addFile\<close> and \<open>removeFile\<close> calls, run from an index; an exception ends
  the run. \<open>guarded\<close> says that each \<open>addFile\<close> of the run finds its path without an entry
  in \<open>files\<close>, which is what the \<open>if (index.files.has(filepath)) index.removeFile(filepath)\<close>
  of both callers of \<open>addFile\<close> sees to. \<open>postingsValid\<close> says that every position in a
  posting set is a position of \<open>filesList\<close> whose document has the word among its tokens.
\<close>

datatype operation = AddDocument jsstring jsstring jsstring int | RemoveDocument jsstring

fun applyOps :: "operation list \<Rightarrow> FileIndex \<Rightarrow> unit completion \<times> FileIndex" where
  "applyOps [] s = (Normal (), s)"
| "applyOps (AddDocument p n c t # ops) s = applyOps ops (addFile p n c t s)"
| "applyOps (RemoveDocument p # ops) s =
     (case removeFile p s of
        (Throw e, s1) \<Rightarrow> (Throw e, s1)
      | (Normal u, s1) \<Rightarrow> applyOps ops s1)"

fun guarded :: "operation list \<Rightarrow> FileIndex \<Rightarrow> bool" where
  "guarded [] s = True"
| "guarded (AddDocument p n c t # ops) s =
     (map_of (files s) p = None \<and> guarded ops (addFile p n c t s))"
| "guarded (RemoveDocument p # ops) s = guarded ops (snd (removeFile p s))"

definition postingsValid :: "FileIndex \<Rightarrow> bool" where
  "postingsValid s \<longleftrightarrow>
     (\<forall>tok i. i \<in> set (getPost (wordIndex s) tok) \<longrightarrow>
        i < length (filesList s) \<and> tok \<in> set (tokensOf (files s) (filesList s ! i)))"

section \<open>Example file systems\<close>

text \<open>
  Example file systems: \<open>diskC\<close> has the new file \<open>/d/c.md\<close> and a file \<open>/d/a.md\<close>
  whose content differs from what the index holds; \<open>diskB\<close> has \<open>/d/b.md\<close> only, every
  other read throws; \<open>diskNone\<close> has no readable file.
\<close>

definition diskC :: filesystem where
  "diskC p = (if p = str ''/d/c.md'' then Some (str ''gamma'')
              else if p = str ''/d/a.md'' then Some (str ''other'') else None)"

definition diskB :: filesystem where
  "diskB p = (if p = str ''/d/b.md'' then Some (str ''beta'') else None)"

definition diskNone :: filesystem where
  "diskNone p = None"

section \<open>Properties of the tokenizer\<close>

lemma set_foldl_setAdd: "set (foldl setAdd s xs) = set s \<union> set xs"
  by (induction xs arbitrary: s) (auto simp: setAdd_def)

lemma distinct_foldl_setAdd: "distinct s \<Longrightarrow> distinct (foldl setAdd s xs)"
  by (induction xs arbitrary: s) (auto simp: setAdd_def)

lemma set_tokenize: "set (tokenize text) = set (cjkMatch text) \<union> set (wordMatch (toLowerCase text))"
  by (simp add: tokenize_def set_foldl_setAdd)

lemma distinct_tokenize: "distinct (tokenize text)"
  by (simp add: tokenize_def distinct_foldl_setAdd)

text \<open>
  Claim C3. The tokenizer is claimed to emit every Katakana character of the text as a
  single-character token. The text made of the one Katakana letter U+30A2 has no token at
  all: the character class of the source has no Katakana range.
\<close>

theorem tokenize_katakana_missing:
  "isKatakana 0x30A2 \<and> tokenize [0x30A2] = [] \<and> [0x30A2] \<notin> set (tokenize [0x30A2])"
  by (simp add: isKatakana_def tokenize_def cjkMatch_def isCJK_def wordMatch_def
      toLowerCase_def lowerUnit_def isWordChar_def)

section \<open>Posting sets\<close>

lemma setAdd_idem: "setAdd (setAdd s x) x = setAdd s x"
  by (simp add: setAdd_def)

lemma getPost_indexWord:
  "getPost (indexWord i wi w) tok = (if tok = w then setAdd (getPost wi w) i else getPost wi tok)"
  by (auto simp: getPost_def indexWord_def Let_def update_conv' split: option.splits)

lemma getPost_foldl_indexWord:
  "getPost (foldl (indexWord i) wi ws) tok =
     (if tok \<in> set ws then setAdd (getPost wi tok) i else getPost wi tok)"
  by (induction ws arbitrary: wi) (auto simp: getPost_indexWord setAdd_idem)

lemma holders_Nil: "holders fm i [] tok = []"
  by (simp add: holders_def)

lemma holders_Cons:
  "holders fm i (f # fl) tok = (if tok \<in> set (tokensOf fm f) then [i] else []) @ holders fm (Suc i) fl tok"
  by (simp add: holders_def)

lemma holders_append:
  "holders fm i (fl @ gl) tok = holders fm i fl tok @ holders fm (i + length fl) gl tok"
  by (induction fl arbitrary: i) (auto simp: holders_Cons holders_Nil)

lemma set_holders:
  "set (holders fm i fl tok) = {j. i \<le> j \<and> j < i + length fl \<and> tok \<in> set (tokensOf fm (fl ! (j - i)))}"
proof (induction fl arbitrary: i)
  case Nil
  then show ?case by (simp add: holders_Nil)
next
  case (Cons f fl)
  have "\<And>j. Suc i \<le> j \<Longrightarrow> (f # fl) ! (j - i) = fl ! (j - Suc i)"
    by (simp add: Suc_le_eq nth_Cons')
  then show ?case
    by (auto simp: holders_Cons Cons.IH Suc_le_eq nth_Cons' le_eq_less_or_eq)
qed

lemma distinct_holders: "distinct (holders fm i fl tok)"
  unfolding holders_def by (rule distinct_map_filter) simp

lemma foldl_setAdd_fresh:
  "distinct xs \<Longrightarrow> set a \<inter> set xs = {} \<Longrightarrow> foldl setAdd a xs = a @ xs"
  by (induction xs arbitrary: a) (auto simp: setAdd_def)

lemma rebuildLoop_ok:
  "\<forall>f\<in>set fl. map_of fm (path f) \<noteq> None \<Longrightarrow>
     \<exists>wi'. rebuildLoop fm fl i wi = Some wi'
       \<and> (\<forall>tok. getPost wi' tok = foldl setAdd (getPost wi tok) (holders fm i fl tok))"
proof (induction fl arbitrary: i wi)
  case Nil
  then show ?case by (simp add: holders_Nil)
next
  case (Cons f fl)
  then obtain fd where fd: "map_of fm (path f) = Some fd" by auto
  let ?wi1 = "foldl (indexWord i) wi (tokenize (content fd))"
  from Cons.IH [of "Suc i" ?wi1] Cons.prems obtain wi' where
    r: "rebuildLoop fm fl (Suc i) ?wi1 = Some wi'" and
    p: "\<forall>tok. getPost wi' tok = foldl setAdd (getPost ?wi1 tok) (holders fm (Suc i) fl tok)"
    by auto
  have "\<forall>tok. getPost wi' tok = foldl setAdd (getPost wi tok) (holders fm i (f # fl) tok)"
    using p fd by (simp add: holders_Cons getPost_foldl_indexWord tokensOf_def)
  with r fd show ?case by simp
qed

lemma rebuildLoop_fail:
  "\<exists>f\<in>set fl. map_of fm (path f) = None \<Longrightarrow> rebuildLoop fm fl i wi = None"
  by (induction fl arbitrary: i wi) (auto split: option.splits)

lemma getPost_Nil: "getPost [] tok = []"
  by (simp add: getPost_def)

lemma rebuildIndices_ok:
  assumes "\<forall>f\<in>set (filesList s). map_of (files s) (path f) \<noteq> None"
  shows "\<exists>wi'. rebuildIndices s = (Normal (), s\<lparr>wordIndex := wi'\<rparr>)
           \<and> (\<forall>tok. getPost wi' tok = holders (files s) 0 (filesList s) tok)"
proof -
  from rebuildLoop_ok [OF assms, of 0 "[]"] obtain wi' where
    r: "rebuildLoop (files s) (filesList s) 0 [] = Some wi'" and
    p: "\<forall>tok. getPost wi' tok = foldl setAdd (getPost [] tok) (holders (files s) 0 (filesList s) tok)"
    by auto
  have "\<forall>tok. getPost wi' tok = holders (files s) 0 (filesList s) tok"
    using p by (simp add: getPost_Nil foldl_setAdd_fresh distinct_holders)
  with r show ?thesis by (auto simp: rebuildIndices_def intro!: exI [of _ wi'])
qed

section \<open>Adding and removing documents\<close>

lemma tokensOf_update_other:
  "path f \<noteq> p \<Longrightarrow> tokensOf (AList.update p d fm) f = tokensOf fm f"
  by (simp add: tokensOf_def update_conv')

lemma tokensOf_delete_other:
  "path f \<noteq> p \<Longrightarrow> tokensOf (AList.delete p fm) f = tokensOf fm f"
  by (simp add: tokensOf_def delete_conv')

lemma holders_cong:
  "(\<And>f. f \<in> set fl \<Longrightarrow> tokensOf fm f = tokensOf fm' f) \<Longrightarrow> holders fm i fl tok = holders fm' i fl tok"
  by (induction fl arbitrary: i) (auto simp: holders_Cons holders_Nil)

lemma files_addFile: "files (addFile p n c t s) = AList.update p \<lparr>filename = n, content = c, mtime = t\<rparr> (files s)"
  by (simp add: addFile_def Let_def)

lemma filesList_addFile: "filesList (addFile p n c t s) = filesList s @ [\<lparr>path = p, name = n\<rparr>]"
  by (simp add: addFile_def Let_def)

lemma wordIndex_addFile:
  "wordIndex (addFile p n c t s) = foldl (indexWord (length (filesList s))) (wordIndex s) (tokenize c)"
  by (simp add: addFile_def Let_def)

lemma setAdd_fresh: "x \<notin> set a \<Longrightarrow> setAdd a x = a @ [x]"
  by (simp add: setAdd_def)

lemma consistent_addFile:
  assumes c: "consistent s" and fresh: "map_of (files s) p = None"
  shows "consistent (addFile p n c t s)"
proof -
  let ?d = "\<lparr>filename = n, content = c, mtime = t\<rparr>"
  let ?fm = "AList.update p ?d (files s)"
  from fresh have pf: "p \<notin> set (map fst (files s))"
    by (simp add: map_of_eq_None_iff)
  with c have pl: "p \<notin> set (map path (filesList s))"
    by (simp add: consistent_def)
  have d1: "distinct (map fst ?fm)"
    using c by (simp add: consistent_def distinct_update)
  have d2: "distinct (map path (filesList s @ [\<lparr>path = p, name = n\<rparr>]))"
    using c pl by (simp add: consistent_def)
  have d3: "set (map path (filesList s @ [\<lparr>path = p, name = n\<rparr>])) = set (map fst ?fm)"
    using c by (auto simp: consistent_def update_keys)
  have old: "\<And>tok. holders ?fm 0 (filesList s) tok = holders (files s) 0 (filesList s) tok"
  proof (rule holders_cong)
    fix f assume "f \<in> set (filesList s)"
    with pl have "path f \<noteq> p" by auto
    then show "tokensOf ?fm f = tokensOf (files s) f"
      by (simp add: tokensOf_update_other)
  qed
  have new: "tokensOf ?fm \<lparr>path = p, name = n\<rparr> = tokenize c"
    by (simp add: tokensOf_def update_conv')
  have d4: "getPost (wordIndex (addFile p n c t s)) tok
      = holders ?fm 0 (filesList s @ [\<lparr>path = p, name = n\<rparr>]) tok" for tok
  proof -
    have g: "getPost (wordIndex s) tok = holders (files s) 0 (filesList s) tok"
      using c by (simp add: consistent_def)
    have "length (filesList s) \<notin> set (holders (files s) 0 (filesList s) tok)"
      by (simp add: set_holders)
    then show ?thesis
      by (simp add: wordIndex_addFile getPost_foldl_indexWord g holders_append old
          holders_Cons holders_Nil new setAdd_fresh)
  qed
  show ?thesis
    unfolding consistent_def files_addFile filesList_addFile
    using d1 d2 d3 d4 by blast
qed

lemma consistent_new: "consistent newFileIndex"
  by (simp add: consistent_def newFileIndex_def getPost_def holders_def)

lemma findIndex_None: "findIndex P xs = None \<longleftrightarrow> (\<forall>x\<in>set xs. \<not> P x)"
  by (induction xs) auto

lemma findIndex_Some:
  "findIndex P xs = Some i \<Longrightarrow> i < length xs \<and> P (xs ! i)"
  by (induction xs arbitrary: i) (auto split: if_splits)

lemma findIndex_splice:
  "distinct (map g xs) \<Longrightarrow> findIndex (\<lambda>f. g f = k) xs = Some i \<Longrightarrow>
     take i xs @ drop (Suc i) xs = filter (\<lambda>f. g f \<noteq> k) xs"
proof (induction xs arbitrary: i)
  case Nil
  then show ?case by simp
next
  case (Cons x xs)
  show ?case
  proof (cases "g x = k")
    case True
    with Cons.prems have "\<forall>y\<in>set xs. g y \<noteq> k" by (fastforce simp: image_iff)
    then have "filter (\<lambda>f. g f \<noteq> k) xs = xs" by (simp add: filter_id_conv)
    with True Cons.prems show ?thesis by simp
  next
    case False
    with Cons.prems obtain j where j: "findIndex (\<lambda>f. g f = k) xs = Some j" "i = Suc j"
      by auto
    with Cons.IH [of j] Cons.prems False show ?thesis by simp
  qed
qed

lemma removeFile_absent: "map_of (files s) p = None \<Longrightarrow> removeFile p s = (Normal (), s)"
  by (simp add: removeFile_def)

lemma removeFile_present:
  assumes c: "consistent s" and pres: "map_of (files s) p \<noteq> None"
  shows "\<exists>wi'. removeFile p s
           = (Normal (), \<lparr>files = AList.delete p (files s), wordIndex = wi',
                           filesList = filter (\<lambda>f. path f \<noteq> p) (filesList s)\<rparr>)
         \<and> consistent \<lparr>files = AList.delete p (files s), wordIndex = wi',
                           filesList = filter (\<lambda>f. path f \<noteq> p) (filesList s)\<rparr>
         \<and> rebuildLoop (AList.delete p (files s)) (filter (\<lambda>f. path f \<noteq> p) (filesList s)) 0 [] = Some wi'"
proof -
  from pres obtain fd where fd: "map_of (files s) p = Some fd" by auto
  then have "p \<in> set (map fst (files s))" by (metis map_of_eq_None_iff option.distinct(1) set_map)
  with c have "p \<in> set (map path (filesList s))" by (simp add: consistent_def)
  then have "findIndex (\<lambda>f. path f = p) (filesList s) \<noteq> None"
    by (auto simp: findIndex_None)
  then obtain i where i: "findIndex (\<lambda>f. path f = p) (filesList s) = Some i" by auto
  from c have dl: "distinct (map path (filesList s))" by (simp add: consistent_def)
  let ?fl = "filter (\<lambda>f. path f \<noteq> p) (filesList s)"
  let ?fm = "AList.delete p (files s)"
  have sp: "take i (filesList s) @ drop (Suc i) (filesList s) = ?fl"
    by (rule findIndex_splice [OF dl i])
  let ?s3 = "\<lparr>files = ?fm, wordIndex = foldl (unindexWord i) (wordIndex s) (tokenize (content fd)),
              filesList = ?fl\<rparr>"
  have r: "removeFile p s = rebuildIndices ?s3"
    using fd i sp by (cases s) (simp add: removeFile_def Let_def)
  have keys: "set (map path ?fl) = set (map fst ?fm)"
    using c by (auto simp: consistent_def delete_keys)
  have "\<forall>f\<in>set (filesList ?s3). map_of (files ?s3) (path f) \<noteq> None"
  proof
    fix f assume "f \<in> set (filesList ?s3)"
    then have "path f \<in> set (map fst ?fm)" using keys by auto
    then show "map_of (files ?s3) (path f) \<noteq> None"
      by (simp add: map_of_eq_None_iff)
  qed
  from rebuildIndices_ok [OF this] obtain wi' where
    w: "rebuildIndices ?s3 = (Normal (), ?s3\<lparr>wordIndex := wi'\<rparr>)"
    and g: "\<forall>tok. getPost wi' tok = holders ?fm 0 ?fl tok" by auto
  have cons: "consistent \<lparr>files = ?fm, wordIndex = wi', filesList = ?fl\<rparr>"
    using c keys g by (simp add: consistent_def distinct_delete distinct_map_filter)
  have rl: "rebuildLoop ?fm ?fl 0 [] = Some wi'"
    using w by (auto simp: rebuildIndices_def split: option.splits)
  show ?thesis using r w cons rl by (intro exI [of _ wi']) simp
qed

section \<open>Occurrences of a query in a line\<close>

lemma findFrom_None: "findFrom q l = None \<longleftrightarrow> \<not> sublist q l"
  by (induction l) (auto simp: sublist_Cons_right)

lemma findFrom_Some_bound: "findFrom q l = Some k \<Longrightarrow> k + length q \<le> length l"
proof (induction l arbitrary: k)
  case Nil
  then show ?case by (simp split: if_splits)
next
  case (Cons c cs)
  then show ?case by (auto split: if_splits dest: prefix_length_le)
qed

lemma stringIncludes_sublist: "stringIncludes line q \<longleftrightarrow> sublist q line"
  by (simp add: stringIncludes_def indexOf_def findFrom_None)

lemma occurrences_Nil: "occurrences q [] = 0"
  by (subst occurrences.simps) simp

lemma occurrences_Cons:
  "q \<noteq> [] \<Longrightarrow> occurrences q (c # cs) =
     (if prefix q (c # cs) then Suc (occurrences q (drop (length q) (c # cs))) else occurrences q cs)"
  by (subst occurrences.simps) simp

lemma occurrences_findFrom_None:
  "q \<noteq> [] \<Longrightarrow> findFrom q l = None \<Longrightarrow> occurrences q l = 0"
  by (induction l) (auto simp: occurrences_Nil occurrences_Cons split: if_splits)

lemma occurrences_findFrom_Some:
  "q \<noteq> [] \<Longrightarrow> findFrom q l = Some k \<Longrightarrow> occurrences q l = Suc (occurrences q (drop (k + length q) l))"
proof (induction l arbitrary: k)
  case Nil
  then show ?case by simp
next
  case (Cons c cs)
  show ?case
  proof (cases "prefix q (c # cs)")
    case True
    with Cons.prems show ?thesis by (simp add: occurrences_Cons)
  next
    case False
    with Cons.prems obtain j where j: "findFrom q cs = Some j" "k = Suc j" by auto
    from Cons.IH [OF Cons.prems(1) j(1)] False j Cons.prems(1) show ?thesis
      by (simp add: occurrences_Cons)
  qed
qed

lemma occurrences_pos: "q \<noteq> [] \<Longrightarrow> 0 < occurrences q l \<longleftrightarrow> sublist q l"
proof (cases "findFrom q l")
  case None
  assume "q \<noteq> []"
  with None show ?thesis
    using findFrom_None [of q l] by (simp add: occurrences_findFrom_None)
next
  case (Some k)
  assume "q \<noteq> []"
  with Some show ?thesis
    using findFrom_None [of q l] by (simp add: occurrences_findFrom_Some)
qed

lemma countLoop_occurrences:
  "q \<noteq> [] \<Longrightarrow> pos \<le> length line \<Longrightarrow>
     countLoop line q pos count = Some (count + occurrences q (drop pos line))"
proof (induction "length line - pos" arbitrary: pos count rule: less_induct)
  case less
  show ?case
  proof (cases "findFrom q (drop pos line)")
    case None
    with less.prems show ?thesis
      by (subst countLoop.simps) (simp add: indexOf_def occurrences_findFrom_None)
  next
    case (Some k)
    from findFrom_Some_bound [OF Some] less.prems
    have b: "pos + k + length q \<le> length line" by simp
    from less.prems(1) have "0 < length q" by simp
    with b have d: "length line - (pos + k + length q) < length line - pos" by linarith
    have io: "indexOf line q pos = Some (pos + k)"
      using Some less.prems by (simp add: indexOf_def min_def)
    have "countLoop line q pos count = countLoop line q (pos + k + length q) (count + 1)"
      by (subst countLoop.simps) (simp add: io)
    also have "\<dots> = Some (count + 1 + occurrences q (drop (pos + k + length q) line))"
      by (rule less.hyps [OF d less.prems(1) b])
    also have "\<dots> = Some (count + occurrences q (drop pos line))"
      using occurrences_findFrom_Some [OF less.prems(1) Some]
      by (simp add: add.commute add.left_commute)
    finally show ?thesis .
  qed
qed

lemma countLines_docCount:
  "q \<noteq> [] \<Longrightarrow> countLines q lines count = Some (count + sum_list (map (occurrences q) lines))"
  by (induction lines arbitrary: count) (simp_all add: countLoop_occurrences)

lemma sum_list_pos_iff: "0 < sum_list (map f xs) \<longleftrightarrow> (\<exists>x\<in>set xs. 0 < (f x :: nat))"
  by (induction xs) auto

lemma docCount_pos:
  "q \<noteq> [] \<Longrightarrow> 0 < docCount q text \<longleftrightarrow> (\<exists>line\<in>set (splitLines text). sublist q line)"
proof -
  assume q: "q \<noteq> []"
  have "0 < docCount q text \<longleftrightarrow> (\<exists>line\<in>set (splitLines text). 0 < occurrences q line)"
    unfolding docCount_def by (rule sum_list_pos_iff)
  then show ?thesis by (simp add: occurrences_pos [OF q])
qed

section \<open>Running a search\<close>

lemma readOnly_ret: "readOnly (ret x)"
  by (simp add: readOnly_def ret_def)

lemma readOnly_raise: "readOnly (raise e)"
  by (simp add: readOnly_def raise_def)

lemma readOnly_look: "readOnly (look f)"
  by (simp add: readOnly_def look_def)

lemma readOnly_orDiverge: "readOnly (orDiverge r)"
  by (simp add: readOnly_def orDiverge_def split: option.splits)

lemma readOnly_andThen:
  assumes "readOnly m" and "\<And>x. readOnly (f x)"
  shows "readOnly (andThen m f)"
  unfolding readOnly_def
proof (intro allI impI)
  fix s c s'
  assume r: "andThen m f s = Some (c, s')"
  show "s' = s"
  proof (cases "m s")
    case None
    with r show ?thesis by (simp add: andThen_def)
  next
    case (Some a)
    obtain c1 s1 where a: "a = (c1, s1)" by (cases a)
    with Some assms(1) have s1: "s1 = s" by (simp add: readOnly_def)
    show ?thesis
    proof (cases c1)
      case (Normal x)
      with r Some a s1 have "f x s = Some (c, s')" by (simp add: andThen_def)
      with assms(2) [of x] show ?thesis by (simp add: readOnly_def)
    next
      case (Throw e)
      with r Some a s1 show ?thesis by (simp add: andThen_def)
    qed
  qed
qed

lemma readOnly_foldProg:
  "(\<And>acc x. readOnly (f acc x)) \<Longrightarrow> readOnly (foldProg f acc xs)"
  by (induction xs arbitrary: acc) (simp_all add: readOnly_ret readOnly_andThen)

lemma readOnly_getContent: "readOnly (getContent p)"
  unfolding getContent_def
  by (intro readOnly_andThen readOnly_look) (simp add: readOnly_raise readOnly_ret split: option.splits)

lemma readOnly_phraseStep: "readOnly (phraseStep q acc i)"
  unfolding phraseStep_def
  by (intro readOnly_andThen readOnly_look readOnly_getContent readOnly_orDiverge readOnly_ret)

lemma readOnly_phraseMode: "readOnly (phraseMode q)"
  unfolding phraseMode_def
  by (intro readOnly_andThen readOnly_look readOnly_foldProg readOnly_phraseStep)

lemma readOnly_tokenStep: "readOnly (tokenStep acc tok)"
  unfolding tokenStep_def
  by (intro readOnly_andThen readOnly_look readOnly_ret)

lemma readOnly_mkMatched: "readOnly (mkMatched acc i)"
  unfolding mkMatched_def
  by (intro readOnly_andThen readOnly_look)
    (simp add: readOnly_raise readOnly_andThen readOnly_getContent readOnly_ret)

lemma readOnly_tokenMode: "readOnly (tokenMode q)"
  unfolding tokenMode_def Let_def
  by (intro readOnly_andThen readOnly_foldProg readOnly_tokenStep readOnly_mkMatched readOnly_ret)

lemma readOnly_matchFiles: "readOnly (matchFiles q)"
  by (simp add: matchFiles_def Let_def readOnly_phraseMode readOnly_tokenMode)

lemma readOnly_search: "readOnly (search q pg perPage)"
  unfolding search_def
  by (intro readOnly_andThen readOnly_matchFiles readOnly_ret)

lemma readOnly_searchFiles: "readOnly (searchFiles q pg)"
  by (simp add: searchFiles_def readOnly_ret readOnly_search)

lemma andThen_Normal: "m s = Some (Normal x, s') \<Longrightarrow> andThen m f s = f x s'"
  by (simp add: andThen_def)

lemma andThen_look: "andThen (look g) f s = f (g s) s"
  by (simp add: andThen_def look_def)

lemma andThen_ret: "andThen (ret x) f s = f x s"
  by (simp add: andThen_def ret_def)

lemma getContent_Some:
  "map_of (files s) p = Some fd \<Longrightarrow> getContent p s = Some (Normal (content fd), s)"
  by (simp add: getContent_def andThen_look ret_def)

lemma phraseStep_ok:
  assumes "q \<noteq> []" and "map_of (files s) (path (filesList s ! i)) = Some fd"
  shows "phraseStep q acc i s = Some (Normal
     (acc @ map (\<lambda>(i, f). \<lparr>m_index = i, m_path = path f, m_name = name f,
                     m_content = contentOf (files s) f,
                     matches = docCount q (contentOf (files s) f)\<rparr>)
       (filter (\<lambda>(i, f). 0 < docCount q (contentOf (files s) f)) [(i, filesList s ! i)])), s)"
  using assms
  by (simp add: phraseStep_def andThen_def look_def getContent_def ret_def
      orDiverge_def countLines_docCount contentOf_def docCount_def)

lemma phraseLoop_ok:
  assumes q: "q \<noteq> []" and all: "\<forall>f\<in>set (filesList s). map_of (files s) (path f) \<noteq> None"
  shows "k \<le> length (filesList s) \<Longrightarrow>
     foldProg (phraseStep q) acc [k..<length (filesList s)] s = Some (Normal
       (acc @ map (\<lambda>(i, f). \<lparr>m_index = i, m_path = path f, m_name = name f,
                     m_content = contentOf (files s) f,
                     matches = docCount q (contentOf (files s) f)\<rparr>)
         (filter (\<lambda>(i, f). 0 < docCount q (contentOf (files s) f))
            (enumerate k (drop k (filesList s))))), s)"
proof (induction "length (filesList s) - k" arbitrary: k acc)
  case 0
  then show ?case by (simp add: ret_def)
next
  case (Suc n)
  then have lt: "k < length (filesList s)" by simp
  with all obtain fd where fd: "map_of (files s) (path (filesList s ! k)) = Some fd"
    by (metis nth_mem not_None_eq)
  have u: "[k..<length (filesList s)] = k # [Suc k..<length (filesList s)]"
    using lt by (simp add: upt_conv_Cons)
  have d: "drop k (filesList s) = filesList s ! k # drop (Suc k) (filesList s)"
    using lt by (simp add: Cons_nth_drop_Suc)
  have n: "n = length (filesList s) - Suc k" using Suc.hyps(2) by simp
  have le: "Suc k \<le> length (filesList s)" using lt by simp
  note st = phraseStep_ok [OF q fd, of acc]
  show ?case
    by (simp add: u andThen_def st Suc.hyps(1) [OF n le] d)
qed

lemma phraseMode_ok:
  assumes "q \<noteq> []" and "\<forall>f\<in>set (filesList s). map_of (files s) (path f) \<noteq> None"
  shows "phraseMode q s = Some (Normal (phraseCandidates q s), s)"
  using phraseLoop_ok [OF assms, of 0 "[]"]
  by (simp add: phraseMode_def andThen_look phraseCandidates_def)

lemma tokenLoop_ok:
  "foldProg tokenStep acc toks s
     = Some (Normal (foldl (\<lambda>acc tok. foldl setAdd acc (getPost (wordIndex s) tok)) acc toks), s)"
  by (induction toks arbitrary: acc)
    (simp_all add: ret_def tokenStep_def andThen_def look_def getPost_def)

lemma mkLoop_ok:
  "\<forall>i\<in>set is. i < length (filesList s) \<and> map_of (files s) (path (filesList s ! i)) \<noteq> None \<Longrightarrow>
   foldProg mkMatched acc is s = Some (Normal
     (acc @ map (\<lambda>i. \<lparr>m_index = i, m_path = path (filesList s ! i), m_name = name (filesList s ! i),
               m_content = contentOf (files s) (filesList s ! i), matches = 0\<rparr>) is), s)"
proof (induction "is" arbitrary: acc)
  case Nil
  then show ?case by (simp add: ret_def)
next
  case (Cons i "is")
  then obtain fd where fd: "map_of (files s) (path (filesList s ! i)) = Some fd"
    and lt: "i < length (filesList s)" by auto
  have st: "mkMatched acc i s = Some (Normal
     (acc @ [\<lparr>m_index = i, m_path = path (filesList s ! i), m_name = name (filesList s ! i),
               m_content = contentOf (files s) (filesList s ! i), matches = 0\<rparr>]), s)"
    using fd lt
    by (simp add: mkMatched_def andThen_def look_def getContent_def ret_def contentOf_def)
  from Cons show ?case
    by (simp add: andThen_def st)
qed

lemma countMatches_lineMatches:
  "countMatches q \<lparr>m_index = i, m_path = p, m_name = n, m_content = text, matches = 0\<rparr>
     = \<lparr>m_index = i, m_path = p, m_name = n, m_content = text, matches = lineMatches q text\<rparr>"
  by (simp add: countMatches_def lineMatches_def stringIncludes_sublist [abs_def])

lemma tokenMode_ok:
  assumes "\<forall>i\<in>set (candidateIndices q s).
     i < length (filesList s) \<and> map_of (files s) (path (filesList s ! i)) \<noteq> None"
  shows "tokenMode q s = Some (Normal (tokenCandidates q s), s)"
  using mkLoop_ok [OF assms, of "[]"]
  by (simp add: tokenMode_def Let_def andThen_def tokenLoop_ok candidateIndices_def ret_def
      tokenCandidates_def countMatches_lineMatches)

lemma set_foldl_postings:
  "set (foldl (\<lambda>acc tok. foldl setAdd acc (g tok)) acc toks) = set acc \<union> (\<Union>tok\<in>set toks. set (g tok))"
  by (induction toks arbitrary: acc) (auto simp: set_foldl_setAdd)

lemma distinct_foldl_postings:
  "distinct acc \<Longrightarrow> distinct (foldl (\<lambda>acc tok. foldl setAdd acc (g tok)) acc toks)"
  by (induction toks arbitrary: acc) (auto simp: distinct_foldl_setAdd)

lemma set_candidateIndices:
  "set (candidateIndices q s) = (\<Union>tok\<in>set (tokenize q). set (getPost (wordIndex s) tok))"
  by (simp add: candidateIndices_def set_foldl_postings)

lemma distinct_candidateIndices: "distinct (candidateIndices q s)"
  by (simp add: candidateIndices_def distinct_foldl_postings)

lemma consistent_paths:
  "consistent s \<Longrightarrow> f \<in> set (filesList s) \<Longrightarrow> map_of (files s) (path f) \<noteq> None"
  by (auto simp: consistent_def map_of_eq_None_iff)

lemma consistent_postings:
  "consistent s \<Longrightarrow> set (getPost (wordIndex s) tok)
     = {i. i < length (filesList s) \<and> tok \<in> set (tokensOf (files s) (filesList s ! i))}"
  by (simp add: consistent_def set_holders)

lemma consistent_candidates:
  assumes "consistent s" and "i \<in> set (candidateIndices q s)"
  shows "i < length (filesList s) \<and> map_of (files s) (path (filesList s ! i)) \<noteq> None"
proof -
  from assms have "i < length (filesList s)"
    by (auto simp: set_candidateIndices consistent_postings)
  with consistent_paths [OF assms(1)] show ?thesis by simp
qed

lemma matchFiles_phrase:
  assumes "consistent s" and "1 < length (cjkMatch q)"
  shows "matchFiles q s = Some (Normal (phraseCandidates q s), s)"
proof -
  from assms(2) have "q \<noteq> []" by (auto simp: cjkMatch_def)
  with assms show ?thesis
    by (simp add: matchFiles_def Let_def phraseMode_ok consistent_paths)
qed

lemma matchFiles_token:
  assumes "consistent s" and "length (cjkMatch q) \<le> 1"
  shows "matchFiles q s = Some (Normal (tokenCandidates q s), s)"
  using assms
  by (simp add: matchFiles_def Let_def tokenMode_ok consistent_candidates)

section \<open>Ceiling division and the example indexes\<close>

lemma ceilDiv_ceiling:
  assumes "0 < d"
  shows "ceilDiv n d = \<lceil>real n / real d\<rceil>"
proof -
  let ?k = "(n + d - 1) div d"
  have a: "?k * d \<le> n + d - 1" by simp
  have b: "n + d - 1 < d + ?k * d" using assms by (rule dividend_less_div_times)
  from b assms have up: "n \<le> ?k * d" by linarith
  from a assms have lo: "?k * d < n + d" by linarith
  have "real n \<le> real (?k * d)" using up by (simp only: of_nat_le_iff)
  then have u: "real n / real d \<le> real ?k"
    using assms by (simp add: pos_divide_le_eq)
  have "real (?k * d) < real (n + d)" using lo by (simp only: of_nat_less_iff)
  then have "(real ?k - 1) * real d < real n"
    by (simp add: algebra_simps)
  then have l: "real ?k - 1 < real n / real d"
    using assms by (simp add: pos_less_divide_eq)
  have "\<lceil>real n / real d\<rceil> = int ?k"
    by (rule ceiling_unique) (use u l in simp_all)
  then show ?thesis by (simp add: ceilDiv_def)
qed

lemma consistent_indexAB: "consistent indexAB"
  unfolding indexAB_def
  by (intro consistent_addFile consistent_new) code_simp+

lemma consistent_indexXY: "consistent indexXY"
  unfolding indexXY_def
  by (intro consistent_addFile consistent_new) code_simp+

lemma set_rank: "set (rank ms) = set ms"
  by (simp add: rank_def)

lemma length_rank: "length (rank ms) = length ms"
  by (simp add: rank_def)
lemma search_ok:
  "matchFiles q s = Some (Normal ms, s) \<Longrightarrow>
     search q pg perPage s = Some (Normal (paginate (map (toResult q) (rank ms)) pg perPage), s)"
  by (simp add: search_def andThen_def ret_def)

lemma consistent_matchFiles:
  assumes "consistent s"
  shows "\<exists>ms. matchFiles q s = Some (Normal ms, s)"
proof (cases "1 < length (cjkMatch q)")
  case True
  with assms show ?thesis by (simp add: matchFiles_phrase)
next
  case False
  with assms show ?thesis by (simp add: matchFiles_token)
qed

section \<open>Phrase mode\<close>

text \<open>
  Phrase mode on the character class of the source. For a query with two or more
  characters of \<open>cjkRegex\<close>, run on a consistent index, the
  candidates of \<open>search\<close> are the documents whose lines hold a positive number of
  non-overlapping occurrences of the query, counted line by line, each with that count as
  its \<open>matches\<close>; a document at a position of the table is a candidate if and only if
  one of its lines contains the query as a contiguous substring; and \<open>search\<close> returns
  the page of the ranked candidates.
\<close>

lemma phrase_mode_candidates:
  assumes "consistent s" and "1 < length (cjkMatch query)"
  shows "matchFiles query s = Some (Normal (phraseCandidates query s), s)
    \<and> search query pg perPage s
        = Some (Normal (paginate (map (toResult query) (rank (phraseCandidates query s))) pg perPage), s)
    \<and> (\<forall>i<length (filesList s).
          i \<in> set (map m_index (phraseCandidates query s))
          \<longleftrightarrow> (\<exists>line\<in>set (splitLines (contentOf (files s) (filesList s ! i))). sublist query line))
    \<and> (\<forall>m\<in>set (phraseCandidates query s).
          m_index m < length (filesList s) \<and> m_path m = path (filesList s ! m_index m)
          \<and> m_content m = contentOf (files s) (filesList s ! m_index m)
          \<and> matches m = docCount query (m_content m) \<and> 0 < matches m)"
proof -
  from assms(2) have q: "query \<noteq> []" by (auto simp: cjkMatch_def)
  have m: "matchFiles query s = Some (Normal (phraseCandidates query s), s)"
    by (rule matchFiles_phrase [OF assms])
  have iff: "i \<in> set (map m_index (phraseCandidates query s))
          \<longleftrightarrow> (\<exists>line\<in>set (splitLines (contentOf (files s) (filesList s ! i))). sublist query line)"
    if "i < length (filesList s)" for i
  proof -
    have "i \<in> set (map m_index (phraseCandidates query s))
        \<longleftrightarrow> 0 < docCount query (contentOf (files s) (filesList s ! i))"
      using that by (force simp: phraseCandidates_def in_set_enumerate_eq image_iff)
    then show ?thesis by (simp add: docCount_pos [OF q])
  qed
  have each: "m_index m < length (filesList s) \<and> m_path m = path (filesList s ! m_index m)
          \<and> m_content m = contentOf (files s) (filesList s ! m_index m)
          \<and> matches m = docCount query (m_content m) \<and> 0 < matches m"
    if "m \<in> set (phraseCandidates query s)" for m
    using that by (auto simp: phraseCandidates_def in_set_enumerate_eq)
  from m search_ok [OF m] iff each show ?thesis by blast
qed

lemma phrase_mode_candidates_example:
  "consistent indexXY \<and> 1 < length (cjkMatch [0x65E5, 0x672C, 0x8A9E])
   \<and> contentOf (files indexXY) (filesList indexXY ! 0) = [97, 0x65E5, 0x672C, 0x8A9E, 98]
   \<and> contentOf (files indexXY) (filesList indexXY ! 1) = [0x65E5, 10, 0x672C, 10, 0x8A9E]
   \<and> matchFiles [0x65E5, 0x672C, 0x8A9E] indexXY
       = Some (Normal [\<lparr>m_index = 0, m_path = str ''/d/x.md'', m_name = str ''x.md'',
                        m_content = [97, 0x65E5, 0x672C, 0x8A9E, 98], matches = 1\<rparr>], indexXY)"
proof -
  have c: "1 < length (cjkMatch [0x65E5, 0x672C, 0x8A9E])" by code_simp
  have x: "contentOf (files indexXY) (filesList indexXY ! 0) = [97, 0x65E5, 0x672C, 0x8A9E, 98]"
    by code_simp
  have y: "contentOf (files indexXY) (filesList indexXY ! 1) = [0x65E5, 10, 0x672C, 10, 0x8A9E]"
    by code_simp
  have p: "phraseCandidates [0x65E5, 0x672C, 0x8A9E] indexXY
      = [\<lparr>m_index = 0, m_path = str ''/d/x.md'', m_name = str ''x.md'',
          m_content = [97, 0x65E5, 0x672C, 0x8A9E, 98], matches = 1\<rparr>]"
    by code_simp
  from phrase_mode_candidates [OF consistent_indexXY c, of 1 15] consistent_indexXY c x y p
  show ?thesis by simp
qed

section \<open>Token mode\<close>

text \<open>
  Claim C2. For a query with at most one CJK character, run on a consistent index, the
  candidates of \<open>search\<close> are the documents at the positions in the union of the posting
  sets of the query's tokens, each position once: the positions whose document has at least
  one token of the query. Every candidate is in the ranked list that \<open>search\<close> pages,
  whatever its count of matching lines, so \<open>total\<close> is the size of the union.
\<close>

theorem token_mode_union:
  assumes "consistent s" and "length (cjkMatch query) \<le> 1"
  shows "matchFiles query s = Some (Normal (tokenCandidates query s), s)
    \<and> set (map m_index (tokenCandidates query s))
        = (\<Union>tok\<in>set (tokenize query). set (getPost (wordIndex s) tok))
    \<and> (\<Union>tok\<in>set (tokenize query). set (getPost (wordIndex s) tok))
        = {i. i < length (filesList s)
             \<and> (\<exists>tok\<in>set (tokenize query). tok \<in> set (tokensOf (files s) (filesList s ! i)))}
    \<and> distinct (map m_index (tokenCandidates query s))
    \<and> (\<forall>m\<in>set (tokenCandidates query s).
          m_path m = path (filesList s ! m_index m)
          \<and> matches m = lineMatches query (m_content m))
    \<and> search query pg perPage s
        = Some (Normal (paginate (map (toResult query) (rank (tokenCandidates query s))) pg perPage), s)
    \<and> set (rank (tokenCandidates query s)) = set (tokenCandidates query s)
    \<and> total (paginate (map (toResult query) (rank (tokenCandidates query s))) pg perPage)
        = card (\<Union>tok\<in>set (tokenize query). set (getPost (wordIndex s) tok))"
proof -
  have m: "matchFiles query s = Some (Normal (tokenCandidates query s), s)"
    by (rule matchFiles_token [OF assms])
  have idx: "map m_index (tokenCandidates query s) = candidateIndices query s"
    by (simp add: tokenCandidates_def comp_def)
  have u: "set (map m_index (tokenCandidates query s))
        = (\<Union>tok\<in>set (tokenize query). set (getPost (wordIndex s) tok))"
    by (simp only: idx set_candidateIndices)
  have v: "(\<Union>tok\<in>set (tokenize query). set (getPost (wordIndex s) tok))
        = {i. i < length (filesList s)
             \<and> (\<exists>tok\<in>set (tokenize query). tok \<in> set (tokensOf (files s) (filesList s ! i)))}"
    by (auto simp: consistent_postings [OF assms(1)])
  have d: "distinct (map m_index (tokenCandidates query s))"
    by (simp only: idx distinct_candidateIndices)
  have e: "\<forall>m\<in>set (tokenCandidates query s).
          m_path m = path (filesList s ! m_index m)
          \<and> matches m = lineMatches query (m_content m)"
    by (auto simp: tokenCandidates_def)
  have "length (tokenCandidates query s) = length (candidateIndices query s)"
    by (simp add: tokenCandidates_def)
  also have "\<dots> = card (set (candidateIndices query s))"
    by (simp add: distinct_card distinct_candidateIndices)
  finally have t: "total (paginate (map (toResult query) (rank (tokenCandidates query s))) pg perPage)
        = card (\<Union>tok\<in>set (tokenize query). set (getPost (wordIndex s) tok))"
    by (simp add: paginate_def Let_def length_rank set_candidateIndices)
  have sk: "search query pg perPage s
        = Some (Normal (paginate (map (toResult query) (rank (tokenCandidates query s))) pg perPage), s)"
    by (rule search_ok [OF m])
  have sr: "set (rank (tokenCandidates query s)) = set (tokenCandidates query s)"
    by (rule set_rank)
  show ?thesis
    by (intro conjI) (fact m, fact u, fact v, fact d, fact e, fact sk, fact sr, fact t)
qed

theorem token_mode_union_witness:
  "consistent indexAB \<and> length (cjkMatch (str ''alpha beta'')) \<le> 1
   \<and> tokenize (str ''alpha beta'') = [str ''alpha'', str ''beta'']
   \<and> getPost (wordIndex indexAB) (str ''alpha'') = [0]
   \<and> getPost (wordIndex indexAB) (str ''beta'') = [1]
   \<and> matchFiles (str ''alpha beta'') indexAB
       = Some (Normal [\<lparr>m_index = 0, m_path = str ''/d/a.md'', m_name = str ''a.md'',
                        m_content = str ''alpha'', matches = 0\<rparr>,
                      \<lparr>m_index = 1, m_path = str ''/d/b.md'', m_name = str ''b.md'',
                        m_content = str ''beta'', matches = 0\<rparr>], indexAB)
   \<and> search (str ''alpha beta'') 1 15 indexAB
       = Some (Normal \<lparr>results = [\<lparr>r_path = str ''/d/a.md'', r_name = str ''a.md'', hits = []\<rparr>,
                                  \<lparr>r_path = str ''/d/b.md'', r_name = str ''b.md'', hits = []\<rparr>],
                        page = 1, totalPages = 1, total = 2\<rparr>, indexAB)"
proof -
  have c: "length (cjkMatch (str ''alpha beta'')) \<le> 1" by code_simp
  have t: "tokenize (str ''alpha beta'') = [str ''alpha'', str ''beta'']" by code_simp
  have a: "getPost (wordIndex indexAB) (str ''alpha'') = [0]" by code_simp
  have b: "getPost (wordIndex indexAB) (str ''beta'') = [1]" by code_simp
  have k: "tokenCandidates (str ''alpha beta'') indexAB
       = [\<lparr>m_index = 0, m_path = str ''/d/a.md'', m_name = str ''a.md'',
                        m_content = str ''alpha'', matches = 0\<rparr>,
                      \<lparr>m_index = 1, m_path = str ''/d/b.md'', m_name = str ''b.md'',
                        m_content = str ''beta'', matches = 0\<rparr>]"
    by code_simp
  have p: "paginate (map (toResult (str ''alpha beta''))
         (rank [\<lparr>m_index = 0, m_path = str ''/d/a.md'', m_name = str ''a.md'',
                        m_content = str ''alpha'', matches = 0\<rparr>,
                      \<lparr>m_index = 1, m_path = str ''/d/b.md'', m_name = str ''b.md'',
                        m_content = str ''beta'', matches = 0\<rparr>])) 1 15
       = \<lparr>results = [\<lparr>r_path = str ''/d/a.md'', r_name = str ''a.md'', hits = []\<rparr>,
                                  \<lparr>r_path = str ''/d/b.md'', r_name = str ''b.md'', hits = []\<rparr>],
                        page = 1, totalPages = 1, total = 2\<rparr>"
    by code_simp
  note th = token_mode_union [OF consistent_indexAB c, of 1 15]
  have m: "matchFiles (str ''alpha beta'') indexAB
      = Some (Normal (tokenCandidates (str ''alpha beta'') indexAB), indexAB)"
    by (rule th [THEN conjunct1])
  have s: "search (str ''alpha beta'') 1 15 indexAB
      = Some (Normal (paginate (map (toResult (str ''alpha beta''))
          (rank (tokenCandidates (str ''alpha beta'') indexAB))) 1 15), indexAB)"
    by (rule th [THEN conjunct2, THEN conjunct2, THEN conjunct2, THEN conjunct2, THEN conjunct2,
          THEN conjunct1])
  show ?thesis
    unfolding m s k p by (intro conjI refl) (fact consistent_indexAB, fact c, fact t, fact a, fact b)
qed

section \<open>Documents for the pagination example\<close>

lemma keys_manyDocs:
  "set (map fst (files (manyDocs n))) = (\<lambda>k. replicate (Suc k) 97) ` {..<n}"
proof (induction n)
  case 0
  then show ?case by (simp add: newFileIndex_def)
next
  case (Suc n)
  have "set (map fst (files (manyDocs (Suc n))))
      = insert (replicate (Suc n) 97) (set (map fst (files (manyDocs n))))"
    by (auto simp: files_addFile update_keys simp del: replicate_Suc)
  with Suc show ?case by (simp add: lessThan_Suc del: replicate_Suc)
qed

lemma consistent_manyDocs: "consistent (manyDocs n)"
proof (induction n)
  case 0
  then show ?case by (simp add: consistent_new)
next
  case (Suc n)
  have "replicate (Suc n) 97 \<notin> set (map fst (files (manyDocs n)))"
  proof
    assume "replicate (Suc n) 97 \<in> set (map fst (files (manyDocs n)))"
    then obtain k where "k < n" and "replicate (Suc n) (97::int) = replicate (Suc k) 97"
      unfolding keys_manyDocs by auto
    then have "length (replicate (Suc n) (97::int)) = length (replicate (Suc k) (97::int))"
      by simp
    with \<open>k < n\<close> show False by simp
  qed
  then have "map_of (files (manyDocs n)) (replicate (Suc n) 97) = None"
    by (simp add: map_of_eq_None_iff)
  with Suc show ?case by (simp add: consistent_addFile del: replicate_Suc)
qed

lemma ceilDiv_pos: "0 < n \<Longrightarrow> 0 < d \<Longrightarrow> 1 \<le> ceilDiv n d"
proof -
  assume "0 < n" and "0 < d"
  then have "d \<le> n + d - 1" by simp
  then have "d div d \<le> (n + d - 1) div d" by (rule div_le_mono)
  with \<open>0 < d\<close> show ?thesis by (simp add: ceilDiv_def)
qed

lemma ceilDiv_zero: "0 < d \<Longrightarrow> ceilDiv 0 d = 0"
  by (simp add: ceilDiv_def)

lemma consistent_matchFiles_candidates:
  assumes "consistent s"
  shows "matchFiles q s = Some (Normal
     (if 1 < length (cjkMatch q) then phraseCandidates q s else tokenCandidates q s), s)"
proof (cases "1 < length (cjkMatch q)")
  case True
  with assms show ?thesis by (simp add: matchFiles_phrase)
next
  case False
  with assms show ?thesis by (simp add: matchFiles_token)
qed

section \<open>Pagination\<close>

text \<open>
  Claim C8. On a consistent index and for a positive page size, \<open>search\<close> ends normally
  and pages the candidates that \<open>matchFiles\<close> finds for the query (the phrase candidates
  or the token candidates): \<open>total\<close> is their number, \<open>results\<close> is the slice of the
  ranked candidates that starts at \<open>(page - 1) * perPage\<close> and has at most \<open>perPage\<close>
  entries, \<open>totalPages\<close> is the ceiling of their number divided by \<open>perPage\<close>, and
  \<open>page\<close> is the requested page clamped between 1 and \<open>totalPages\<close>. With no candidate,
  \<open>totalPages\<close> is 0 and \<open>page\<close> is 1 whatever page was asked for; with 16 candidates
  and a page size of 15, page 2 holds one result, the last of the ranking, and
  \<open>totalPages\<close> is 2. \<open>searchFiles\<close> always passes the page size 15. The requested page
  is an integer in the model.
\<close>

theorem pagination_clamp:
  assumes "consistent s" and "0 < perPage"
  shows "(\<exists>ms r. matchFiles query s = Some (Normal ms, s)
       \<and> ms = (if 1 < length (cjkMatch query) then phraseCandidates query s
               else tokenCandidates query s)
       \<and> search query pg perPage s = Some (Normal r, s)
       \<and> total r = length ms
       \<and> results r = take perPage (drop (nat (page r - 1) * perPage) (map (toResult query) (rank ms)))
       \<and> totalPages r = \<lceil>real (length ms) / real perPage\<rceil>
       \<and> page r = max 1 (min pg (totalPages r))
       \<and> (0 < length ms \<longrightarrow> 1 \<le> page r \<and> page r \<le> totalPages r)
       \<and> (length ms = 0 \<longrightarrow> totalPages r = 0 \<and> page r = 1 \<and> results r = [])
       \<and> length (results r) = min perPage (length ms - nat (page r - 1) * perPage)
       \<and> (perPage = 15 \<and> length ms = 16 \<and> pg = 2
            \<longrightarrow> totalPages r = 2 \<and> page r = 2 \<and> results r = [toResult query (rank ms ! 15)]))
     \<and> (trim query \<noteq> [] \<longrightarrow> searchFiles query pg s = search (trim query) pg 15 s)"
proof -
  define ms where "ms = (if 1 < length (cjkMatch query) then phraseCandidates query s
               else tokenCandidates query s)"
  have ms: "matchFiles query s = Some (Normal ms, s)"
    unfolding ms_def by (rule consistent_matchFiles_candidates [OF assms(1)])
  let ?rs = "map (toResult query) (rank ms)"
  let ?r = "paginate ?rs pg perPage"
  have sr: "search query pg perPage s = Some (Normal ?r, s)" by (rule search_ok [OF ms])
  have lrs: "length ?rs = length ms" by (simp only: length_map length_rank)
  have tot: "total ?r = length ms" by (simp add: paginate_def Let_def length_rank)
  have tp: "totalPages ?r = ceilDiv (length ms) perPage"
    by (simp add: paginate_def Let_def length_rank)
  have pn: "page ?r = max 1 (min pg (totalPages ?r))" by (simp add: paginate_def Let_def)
  have res0: "results ?r = take perPage (drop (nat ((page ?r - 1) * int perPage)) ?rs)"
    by (simp add: paginate_def Let_def)
  have "1 \<le> page ?r" by (subst pn) simp
  then have st: "nat ((page ?r - 1) * int perPage) = nat (page ?r - 1) * perPage"
    by (simp add: nat_mult_distrib)
  have res: "results ?r = take perPage (drop (nat (page ?r - 1) * perPage) ?rs)"
    by (simp only: res0 st)
  have c1: "totalPages ?r = \<lceil>real (length ms) / real perPage\<rceil>"
    by (simp only: tp ceilDiv_ceiling [OF assms(2)])
  have c3: "0 < length ms \<longrightarrow> 1 \<le> page ?r \<and> page ?r \<le> totalPages ?r"
  proof
    assume "0 < length ms"
    then have "1 \<le> totalPages ?r"
      unfolding tp by (rule ceilDiv_pos [OF _ assms(2)])
    then show "1 \<le> page ?r \<and> page ?r \<le> totalPages ?r"
      unfolding pn by simp
  qed
  have c4: "length ms = 0 \<longrightarrow> totalPages ?r = 0 \<and> page ?r = 1 \<and> results ?r = []"
  proof
    assume z: "length ms = 0"
    have t0: "totalPages ?r = 0" by (simp only: tp z ceilDiv_zero [OF assms(2)])
    have p1: "page ?r = 1" using pn t0 by (simp add: max_def min_def)
    from z lrs have "length ?rs = 0" by simp
    then have "?rs = []" by (simp only: length_0_conv)
    then have "take perPage (drop (nat (page ?r - 1) * perPage) ?rs) = []" by simp
    then have "results ?r = []" by (simp only: res)
    with t0 p1 show "totalPages ?r = 0 \<and> page ?r = 1 \<and> results ?r = []" by simp
  qed
  have c5: "length (results ?r) = min perPage (length ms - nat (page ?r - 1) * perPage)"
    by (simp only: res length_take length_drop lrs min.commute)
  have c6: "perPage = 15 \<and> length ms = 16 \<and> pg = 2
            \<longrightarrow> totalPages ?r = 2 \<and> page ?r = 2 \<and> results ?r = [toResult query (rank ms ! 15)]"
  proof
    assume h: "perPage = 15 \<and> length ms = 16 \<and> pg = 2"
    then have hp: "perPage = 15" and hl: "length ms = 16" and hg: "pg = 2" by blast+
    have "ceilDiv (length ms) perPage = 2" by (simp only: hl hp) (simp add: ceilDiv_def)
    then have t2: "totalPages ?r = 2" by (simp only: tp)
    have "max 1 (min pg (2::int)) = 2" by (simp add: hg)
    then have p2: "page ?r = 2" using pn by (simp only: t2)
    have l16: "length ?rs = 16" using lrs hl by simp
    have "take 15 (drop 15 ?rs) = [?rs ! 15]"
    proof -
      have "Suc 15 = length ?rs" using l16 by simp
      then have e: "drop (Suc 15) ?rs = []" by simp
      have "15 < length ?rs" using l16 by simp
      then have "drop 15 ?rs = ?rs ! 15 # drop (Suc 15) ?rs" by (rule Cons_nth_drop_Suc [symmetric])
      with e have "drop 15 ?rs = [?rs ! 15]" by simp
      then show ?thesis by simp
    qed
    moreover have "?rs ! 15 = toResult query (rank ms ! 15)"
      using hl by (simp add: length_rank)
    moreover have "results ?r = take 15 (drop 15 ?rs)"
    proof -
      have n15: "nat (page ?r - 1) * perPage = 15" by (simp only: p2) (simp add: hp)
      have "results ?r = take perPage (drop 15 ?rs)" by (simp only: res n15)
      then show ?thesis using hp by simp
    qed
    ultimately have "results ?r = [toResult query (rank ms ! 15)]" by simp
    with t2 p2 show "totalPages ?r = 2 \<and> page ?r = 2 \<and> results ?r = [toResult query (rank ms ! 15)]"
      by simp
  qed
  have sf: "trim query \<noteq> [] \<longrightarrow> searchFiles query pg s = search (trim query) pg 15 s"
    by (simp add: searchFiles_def)
  have "\<exists>ms r. matchFiles query s = Some (Normal ms, s)
       \<and> ms = (if 1 < length (cjkMatch query) then phraseCandidates query s
               else tokenCandidates query s)
       \<and> search query pg perPage s = Some (Normal r, s)
       \<and> total r = length ms
       \<and> results r = take perPage (drop (nat (page r - 1) * perPage) (map (toResult query) (rank ms)))
       \<and> totalPages r = \<lceil>real (length ms) / real perPage\<rceil>
       \<and> page r = max 1 (min pg (totalPages r))
       \<and> (0 < length ms \<longrightarrow> 1 \<le> page r \<and> page r \<le> totalPages r)
       \<and> (length ms = 0 \<longrightarrow> totalPages r = 0 \<and> page r = 1 \<and> results r = [])
       \<and> length (results r) = min perPage (length ms - nat (page r - 1) * perPage)
       \<and> (perPage = 15 \<and> length ms = 16 \<and> pg = 2
            \<longrightarrow> totalPages r = 2 \<and> page r = 2 \<and> results r = [toResult query (rank ms ! 15)])"
    by (intro exI [of _ ms] exI [of _ ?r] conjI)
      (fact ms, fact ms_def, fact sr, fact tot, fact res, fact c1, fact pn, fact c3, fact c4, fact c5, fact c6)
  from this sf show ?thesis by (rule conjI)
qed

theorem pagination_clamp_witness:
  "consistent (manyDocs 16) \<and> (0::nat) < 15
   \<and> length (tokenCandidates (str ''x'') (manyDocs 16)) = 16
   \<and> search (str ''x'') 2 15 (manyDocs 16)
       = Some (Normal \<lparr>results = [\<lparr>r_path = replicate 16 97, r_name = str ''x.md'',
                                    hits = [\<lparr>lineNum = 1, hit_content = str ''x''\<rparr>]\<rparr>],
                        page = 2, totalPages = 2, total = 16\<rparr>, manyDocs 16)
   \<and> search (str ''y'') 7 15 (manyDocs 16)
       = Some (Normal \<lparr>results = [], page = 1, totalPages = 0, total = 0\<rparr>, manyDocs 16)
   \<and> \<lceil>real 16 / real 15\<rceil> = (2::int)"
proof -
  let ?r = "\<lparr>results = [\<lparr>r_path = replicate 16 97, r_name = str ''x.md'',
                                    hits = [\<lparr>lineNum = 1, hit_content = str ''x''\<rparr>]\<rparr>],
                        page = 2, totalPages = (2::int), total = (16::nat)\<rparr>"
  have p: "(0::nat) < 15" by simp
  have k: "\<not> 1 < length (cjkMatch (str ''x''))" by code_simp
  have l: "length (tokenCandidates (str ''x'') (manyDocs 16)) = 16" by code_simp
  have e1: "search (str ''x'') 2 15 (manyDocs 16) = Some (Normal ?r, manyDocs 16)"
    by code_simp
  have e2: "search (str ''y'') 7 15 (manyDocs 16)
       = Some (Normal \<lparr>results = [], page = 1, totalPages = 0, total = 0\<rparr>, manyDocs 16)"
    by code_simp
  from pagination_clamp [OF consistent_manyDocs [of 16] p, where query = "str ''x''" and pg = 2]
  obtain ms r where m: "ms = (if 1 < length (cjkMatch (str ''x'')) then phraseCandidates (str ''x'') (manyDocs 16)
               else tokenCandidates (str ''x'') (manyDocs 16))"
    and r: "search (str ''x'') 2 15 (manyDocs 16) = Some (Normal r, manyDocs 16)"
    and c: "totalPages r = \<lceil>real (length ms) / real 15\<rceil>"
    by blast
  from m k have "ms = tokenCandidates (str ''x'') (manyDocs 16)" by simp
  with l have lm: "length ms = 16" by simp
  from r e1 have "r = ?r" by simp
  with c lm have "\<lceil>real 16 / real 15\<rceil> = (2::int)" by simp
  with consistent_manyDocs p l e1 e2 show ?thesis by blast
qed

section \<open>Search leaves the index alone\<close>

text \<open>
  Claim C10. Whatever the index state, the query, the page and the page size, a run of
  \<open>search\<close> or of \<open>searchFiles\<close> that ends, with a result or with an exception, ends in
  the state it started from: \<open>files\<close>, \<open>filesList\<close> and \<open>wordIndex\<close> are unchanged.
\<close>

theorem search_read_only:
  "(search query pg perPage s = Some (c, s')
      \<longrightarrow> s' = s \<and> files s' = files s \<and> filesList s' = filesList s \<and> wordIndex s' = wordIndex s)
   \<and> (searchFiles query pg s = Some (c, s')
      \<longrightarrow> s' = s \<and> files s' = files s \<and> filesList s' = filesList s \<and> wordIndex s' = wordIndex s)"
  using readOnly_search [of query pg perPage] readOnly_searchFiles [of query pg]
  unfolding readOnly_def by blast

theorem search_read_only_witness:
  "search (str ''alpha'') 1 15 indexAB
     = Some (Normal \<lparr>results = [\<lparr>r_path = str ''/d/a.md'', r_name = str ''a.md'',
                                  hits = [\<lparr>lineNum = 1, hit_content = str ''alpha''\<rparr>]\<rparr>],
                      page = 1, totalPages = 1, total = 1\<rparr>, indexAB)
   \<and> searchFiles (str '' alpha '') 1 indexAB
     = Some (Normal \<lparr>results = [\<lparr>r_path = str ''/d/a.md'', r_name = str ''a.md'',
                                  hits = [\<lparr>lineNum = 1, hit_content = str ''alpha''\<rparr>]\<rparr>],
                      page = 1, totalPages = 1, total = 1\<rparr>, indexAB)"
proof -
  let ?r = "\<lparr>results = [\<lparr>r_path = str ''/d/a.md'', r_name = str ''a.md'',
                                  hits = [\<lparr>lineNum = 1, hit_content = str ''alpha''\<rparr>]\<rparr>],
                      page = 1, totalPages = 1, total = 1\<rparr>"
  let ?s = "\<lparr>files = [(str ''/d/a.md'', \<lparr>filename = str ''a.md'', content = str ''alpha'', mtime = 1\<rparr>),
                       (str ''/d/b.md'', \<lparr>filename = str ''b.md'', content = str ''beta'', mtime = 2\<rparr>)],
             wordIndex = [(str ''alpha'', [0]), (str ''beta'', [1])],
             filesList = [\<lparr>path = str ''/d/a.md'', name = str ''a.md''\<rparr>,
                          \<lparr>path = str ''/d/b.md'', name = str ''b.md''\<rparr>]\<rparr>"
  have e1: "search (str ''alpha'') 1 15 indexAB = Some (Normal ?r, ?s)" by code_simp
  have e2: "searchFiles (str '' alpha '') 1 indexAB = Some (Normal ?r, ?s)" by code_simp
  from search_read_only [where query = "str ''alpha''" and pg = 1 and perPage = 15
      and s = indexAB and c = "Normal ?r" and s' = ?s] e1
  have s1: "?s = indexAB" by blast
  from search_read_only [where query = "str '' alpha ''" and pg = 1 and perPage = 15
      and s = indexAB and c = "Normal ?r" and s' = ?s] e2
  have s2: "?s = indexAB" by blast
  from e1 have "search (str ''alpha'') 1 15 indexAB = Some (Normal ?r, indexAB)"
    by (simp only: s1)
  moreover from e2 have "searchFiles (str '' alpha '') 1 indexAB = Some (Normal ?r, indexAB)"
    by (simp only: s2)
  ultimately show ?thesis by (rule conjI)
qed

section \<open>Paths of the candidates\<close>

lemma length_filter_removed:
  assumes "distinct (map g xs)" and "k \<in> set (map g xs)"
  shows "Suc (length (filter (\<lambda>f. g f \<noteq> k) xs)) = length xs"
proof -
  from assms(2) have "findIndex (\<lambda>f. g f = k) xs \<noteq> None"
    by (auto simp: findIndex_None)
  then obtain i where i: "findIndex (\<lambda>f. g f = k) xs = Some i" by auto
  from findIndex_Some [OF i] have "i < length xs" by simp
  then have "Suc (length (take i xs @ drop (Suc i) xs)) = length xs" by simp
  then show ?thesis by (simp only: findIndex_splice [OF assms(1) i])
qed

lemma phraseCandidates_paths:
  "m \<in> set (phraseCandidates q s) \<Longrightarrow> m_path m \<in> set (map path (filesList s))"
  by (auto simp: phraseCandidates_def in_set_enumerate_eq)

lemma tokenCandidates_paths:
  assumes "consistent s" and "m \<in> set (tokenCandidates q s)"
  shows "m_path m \<in> set (map path (filesList s))"
proof -
  from assms(2) obtain i where i: "i \<in> set (candidateIndices q s)"
    and m: "m_path m = path (filesList s ! i)"
    by (auto simp: tokenCandidates_def)
  from consistent_candidates [OF assms(1) i] have "i < length (filesList s)" by simp
  with m show ?thesis by simp
qed

lemma consistent_matchFiles_paths:
  assumes "consistent s"
  shows "\<exists>ms. matchFiles q s = Some (Normal ms, s) \<and> set (map m_path ms) \<subseteq> set (map path (filesList s))"
proof (cases "1 < length (cjkMatch q)")
  case True
  from matchFiles_phrase [OF assms True] phraseCandidates_paths [of _ q s]
  show ?thesis by auto
next
  case False
  then have "length (cjkMatch q) \<le> 1" by simp
  from matchFiles_token [OF assms this] tokenCandidates_paths [OF assms, of _ q]
  show ?thesis by auto
qed

lemma paginate_paths:
  "set (map r_path (results (paginate (map (toResult q) (rank ms)) pg perPage))) \<subseteq> set (map m_path ms)"
proof -
  have "set (results (paginate (map (toResult q) (rank ms)) pg perPage)) \<subseteq> toResult q ` set (rank ms)"
    by (auto simp: paginate_def Let_def dest!: in_set_takeD in_set_dropD)
  then show ?thesis by (auto simp: set_rank toResult_def)
qed

lemma consistent_search_paths:
  assumes "consistent s"
  shows "\<exists>r. search q pg perPage s = Some (Normal r, s)
     \<and> set (map r_path (results r)) \<subseteq> set (map path (filesList s))"
proof -
  from consistent_matchFiles_paths [OF assms] obtain ms where
    ms: "matchFiles q s = Some (Normal ms, s)"
    and sub: "set (map m_path ms) \<subseteq> set (map path (filesList s))" by blast
  from paginate_paths [of q ms pg perPage] sub
  have "set (map r_path (results (paginate (map (toResult q) (rank ms)) pg perPage)))
      \<subseteq> set (map path (filesList s))" by (rule subset_trans)
  with search_ok [OF ms] show ?thesis by blast
qed

section \<open>Removing a document\<close>

text \<open>
  Claim C5. \<open>removeFile\<close> on a path without an entry in \<open>files\<close> returns the index as it
  is. On a path of a consistent index it ends normally, deletes the entry from \<open>files\<close>,
  takes the one entry with that path out of \<open>filesList\<close> (the length goes down by one), and
  leaves as \<open>wordIndex\<close> what the rebuild loop computes from the empty map over the
  remaining documents at their new positions; the index stays consistent, and no query has
  the removed path among its candidates or its results.
\<close>

theorem removeFile_rebuilds:
  "(map_of (files s) p = None \<longrightarrow> removeFile p s = (Normal (), s))
   \<and> (consistent s \<and> map_of (files s) p \<noteq> None \<longrightarrow>
        (\<exists>s'. removeFile p s = (Normal (), s')
           \<and> files s' = AList.delete p (files s)
           \<and> filesList s' = filter (\<lambda>f. path f \<noteq> p) (filesList s)
           \<and> Suc (length (filesList s')) = length (filesList s)
           \<and> rebuildLoop (files s') (filesList s') 0 [] = Some (wordIndex s')
           \<and> (\<forall>tok. getPost (wordIndex s') tok = holders (files s') 0 (filesList s') tok)
           \<and> consistent s'
           \<and> (\<forall>query. \<exists>ms. matchFiles query s' = Some (Normal ms, s') \<and> p \<notin> set (map m_path ms))
           \<and> (\<forall>query pg perPage. \<exists>r. search query pg perPage s' = Some (Normal r, s')
                 \<and> p \<notin> set (map r_path (results r)))))"
proof (intro conjI impI)
  assume "map_of (files s) p = None"
  then show "removeFile p s = (Normal (), s)" by (rule removeFile_absent)
next
  assume a: "consistent s \<and> map_of (files s) p \<noteq> None"
  then have c: "consistent s" and pr: "map_of (files s) p \<noteq> None" by simp_all
  from removeFile_present [OF c pr] obtain wi' where
    r: "removeFile p s = (Normal (), \<lparr>files = AList.delete p (files s), wordIndex = wi',
                           filesList = filter (\<lambda>f. path f \<noteq> p) (filesList s)\<rparr>)"
    and c': "consistent \<lparr>files = AList.delete p (files s), wordIndex = wi',
                           filesList = filter (\<lambda>f. path f \<noteq> p) (filesList s)\<rparr>"
    and rl: "rebuildLoop (AList.delete p (files s)) (filter (\<lambda>f. path f \<noteq> p) (filesList s)) 0 [] = Some wi'"
    by blast
  let ?s' = "\<lparr>files = AList.delete p (files s), wordIndex = wi',
                           filesList = filter (\<lambda>f. path f \<noteq> p) (filesList s)\<rparr>"
  from pr have "p \<in> set (map fst (files s))"
    by (simp add: map_of_eq_None_iff)
  with c have pin: "p \<in> set (map path (filesList s))" by (simp add: consistent_def)
  from c have "distinct (map path (filesList s))" by (simp add: consistent_def)
  from length_filter_removed [OF this pin]
  have len: "Suc (length (filesList ?s')) = length (filesList s)" by simp
  have gp: "\<forall>tok. getPost (wordIndex ?s') tok = holders (files ?s') 0 (filesList ?s') tok"
    using c' by (simp add: consistent_def)
  have notin: "p \<notin> set (map path (filesList ?s'))" by auto
  have mf: "\<forall>query. \<exists>ms. matchFiles query ?s' = Some (Normal ms, ?s') \<and> p \<notin> set (map m_path ms)"
    using consistent_matchFiles_paths [OF c'] notin by blast
  have sf: "\<forall>query pg perPage. \<exists>r. search query pg perPage ?s' = Some (Normal r, ?s')
                 \<and> p \<notin> set (map r_path (results r))"
    using consistent_search_paths [OF c'] notin by blast
  show "\<exists>s'. removeFile p s = (Normal (), s')
           \<and> files s' = AList.delete p (files s)
           \<and> filesList s' = filter (\<lambda>f. path f \<noteq> p) (filesList s)
           \<and> Suc (length (filesList s')) = length (filesList s)
           \<and> rebuildLoop (files s') (filesList s') 0 [] = Some (wordIndex s')
           \<and> (\<forall>tok. getPost (wordIndex s') tok = holders (files s') 0 (filesList s') tok)
           \<and> consistent s'
           \<and> (\<forall>query. \<exists>ms. matchFiles query s' = Some (Normal ms, s') \<and> p \<notin> set (map m_path ms))
           \<and> (\<forall>query pg perPage. \<exists>r. search query pg perPage s' = Some (Normal r, s')
                 \<and> p \<notin> set (map r_path (results r)))"
  proof (intro exI [of _ ?s'] conjI)
    show "removeFile p s = (Normal (), ?s')" by (rule r)
    show "files ?s' = AList.delete p (files s)" by simp
    show "filesList ?s' = filter (\<lambda>f. path f \<noteq> p) (filesList s)" by simp
    show "Suc (length (filesList ?s')) = length (filesList s)" by (rule len)
    show "rebuildLoop (files ?s') (filesList ?s') 0 [] = Some (wordIndex ?s')" using rl by simp
    show "\<forall>tok. getPost (wordIndex ?s') tok = holders (files ?s') 0 (filesList ?s') tok" by (rule gp)
    show "consistent ?s'" by (rule c')
    show "\<forall>query. \<exists>ms. matchFiles query ?s' = Some (Normal ms, ?s') \<and> p \<notin> set (map m_path ms)"
      by (rule mf)
    show "\<forall>query pg perPage. \<exists>r. search query pg perPage ?s' = Some (Normal r, ?s')
                 \<and> p \<notin> set (map r_path (results r))" by (rule sf)
  qed
qed

theorem removeFile_rebuilds_witness:
  "map_of (files indexAB) (str ''/d/c.md'') = None
   \<and> removeFile (str ''/d/c.md'') indexAB = (Normal (), indexAB)
   \<and> consistent (addFile (str ''/d/c.md'') (str ''c.md'') (str ''gamma alpha'') 3 indexAB)
   \<and> map_of (files (addFile (str ''/d/c.md'') (str ''c.md'') (str ''gamma alpha'') 3 indexAB))
         (str ''/d/c.md'') \<noteq> None
   \<and> removeFile (str ''/d/c.md'') (addFile (str ''/d/c.md'') (str ''c.md'') (str ''gamma alpha'') 3 indexAB)
       = (Normal (), indexAB)
   \<and> (\<exists>ms. matchFiles (str ''gamma'') indexAB = Some (Normal ms, indexAB)
          \<and> str ''/d/c.md'' \<notin> set (map m_path ms))"
proof -
  let ?p = "str ''/d/c.md''"
  let ?s = "addFile ?p (str ''c.md'') (str ''gamma alpha'') 3 indexAB"
  have ab: "map_of (files indexAB) ?p = None" by code_simp
  have c: "consistent ?s" by (rule consistent_addFile [OF consistent_indexAB ab])
  have pr: "map_of (files ?s) ?p \<noteq> None" by code_simp
  have e: "removeFile ?p ?s = (Normal (), indexAB)" by code_simp
  from removeFile_rebuilds [of indexAB ?p] ab
  have r1: "removeFile ?p indexAB = (Normal (), indexAB)" by blast
  from removeFile_rebuilds [of ?s ?p] c pr obtain s' where
    r2: "removeFile ?p ?s = (Normal (), s')"
    and q: "\<forall>query. \<exists>ms. matchFiles query s' = Some (Normal ms, s') \<and> ?p \<notin> set (map m_path ms)"
    by blast
  from r2 e have "s' = indexAB" by simp
  with q have "\<exists>ms. matchFiles (str ''gamma'') indexAB = Some (Normal ms, indexAB)
          \<and> ?p \<notin> set (map m_path ms)" by blast
  with ab r1 c pr e show ?thesis by blast
qed

section \<open>Guarded sequences keep the index consistent\<close>

lemma consistent_removeFile:
  assumes "consistent s"
  shows "\<exists>s'. removeFile p s = (Normal (), s') \<and> consistent s'"
proof (cases "map_of (files s) p")
  case None
  with assms show ?thesis by (simp add: removeFile_absent)
next
  case (Some fd)
  then have "map_of (files s) p \<noteq> None" by simp
  from removeFile_present [OF assms this] show ?thesis by blast
qed

lemma guarded_applyOps:
  "consistent s \<Longrightarrow> guarded ops s \<Longrightarrow> \<exists>s'. applyOps ops s = (Normal (), s') \<and> consistent s'"
proof (induction ops arbitrary: s)
  case Nil
  then show ?case by simp
next
  case (Cons op ops)
  show ?case
  proof (cases op)
    case (AddDocument p n c t)
    with Cons.prems have f: "map_of (files s) p = None" and g: "guarded ops (addFile p n c t s)"
      by simp_all
    from consistent_addFile [OF Cons.prems(1) f] have "consistent (addFile p n c t s)" .
    from Cons.IH [OF this g] AddDocument show ?thesis by simp
  next
    case (RemoveDocument p)
    from consistent_removeFile [OF Cons.prems(1)] obtain s1 where
      r: "removeFile p s = (Normal (), s1)" and c: "consistent s1" by blast
    from Cons.prems(2) RemoveDocument r have "guarded ops s1" by simp
    from Cons.IH [OF c this] RemoveDocument r show ?thesis by simp
  qed
qed

lemma consistent_postingsValid: "consistent s \<Longrightarrow> postingsValid s"
  by (simp add: postingsValid_def consistent_postings)

section \<open>The invariant after a sequence of operations\<close>

text \<open>
  Claim C6, as stated, fails: after \<open>addFile\<close> twice for the same path, first with the
  content \<open>a\<close> and then with \<open>b\<close>, the posting set of \<open>a\<close> holds position 0, and the
  document at position 0 has the content \<open>b\<close>.
\<close>

theorem postingsValid_counterexample:
  "\<not> postingsValid (snd (applyOps
       [AddDocument (str ''/d/a.md'') (str ''a.md'') (str ''a'') 1,
        AddDocument (str ''/d/a.md'') (str ''a.md'') (str ''b'') 2] newFileIndex))"
proof
  let ?s = "snd (applyOps
       [AddDocument (str ''/d/a.md'') (str ''a.md'') (str ''a'') 1,
        AddDocument (str ''/d/a.md'') (str ''a.md'') (str ''b'') 2] newFileIndex)"
  assume v: "postingsValid ?s"
  have p: "0 \<in> set (getPost (wordIndex ?s) (str ''a''))" by code_simp
  have t: "str ''a'' \<notin> set (tokensOf (files ?s) (filesList ?s ! 0))" by code_simp
  from v p have "str ''a'' \<in> set (tokensOf (files ?s) (filesList ?s ! 0))"
    unfolding postingsValid_def by blast
  with t show False by simp
qed

text \<open>
  Claim C6, amended. After every guarded sequence of operations from the empty index the
  run has ended normally, paths are unique in \<open>filesList\<close>, every entry of \<open>filesList\<close>
  has its content in \<open>files\<close>, every position in a posting set is a position of the table
  whose document has the word among its tokens, and the positions in the posting sets are
  all the positions from 0 up to the length of the table whose document has a token.
\<close>

theorem guarded_ops_invariant:
  assumes "guarded ops newFileIndex"
  shows "\<exists>s. applyOps ops newFileIndex = (Normal (), s)
     \<and> consistent s
     \<and> distinct (map path (filesList s))
     \<and> (\<forall>i<length (filesList s). map_of (files s) (path (filesList s ! i)) \<noteq> None)
     \<and> postingsValid s
     \<and> (\<Union>tok. set (getPost (wordIndex s) tok))
         = {i. i < length (filesList s) \<and> tokensOf (files s) (filesList s ! i) \<noteq> []}"
proof -
  from guarded_applyOps [OF consistent_new assms] obtain s where
    r: "applyOps ops newFileIndex = (Normal (), s)" and c: "consistent s" by blast
  have d: "distinct (map path (filesList s))" using c by (simp add: consistent_def)
  have f: "\<forall>i<length (filesList s). map_of (files s) (path (filesList s ! i)) \<noteq> None"
    using consistent_paths [OF c] by simp
  have u: "(\<Union>tok. set (getPost (wordIndex s) tok))
         = {i. i < length (filesList s) \<and> tokensOf (files s) (filesList s ! i) \<noteq> []}"
  proof -
    have "\<And>xs :: jsstring list. xs \<noteq> [] \<longleftrightarrow> (\<exists>tok. tok \<in> set xs)"
      by (metis ex_in_conv set_empty)
    then show ?thesis by (auto simp: consistent_postings [OF c])
  qed
  from r c d f consistent_postingsValid [OF c] u show ?thesis by blast
qed

theorem guarded_ops_invariant_witness:
  "guarded [AddDocument (str ''/d/a.md'') (str ''a.md'') (str ''a'') 1,
            RemoveDocument (str ''/d/a.md''),
            AddDocument (str ''/d/a.md'') (str ''a.md'') (str ''b'') 2] newFileIndex
   \<and> postingsValid
        \<lparr>files = [(str ''/d/a.md'', \<lparr>filename = str ''a.md'', content = str ''b'', mtime = 2\<rparr>)],
         wordIndex = [(str ''b'', [0])],
         filesList = [\<lparr>path = str ''/d/a.md'', name = str ''a.md''\<rparr>]\<rparr>"
proof -
  let ?ops = "[AddDocument (str ''/d/a.md'') (str ''a.md'') (str ''a'') 1,
            RemoveDocument (str ''/d/a.md''),
            AddDocument (str ''/d/a.md'') (str ''a.md'') (str ''b'') 2]"
  let ?s = "\<lparr>files = [(str ''/d/a.md'', \<lparr>filename = str ''a.md'', content = str ''b'', mtime = 2\<rparr>)],
         wordIndex = [(str ''b'', [0])],
         filesList = [\<lparr>path = str ''/d/a.md'', name = str ''a.md''\<rparr>]\<rparr>"
  have g: "guarded ?ops newFileIndex" by code_simp
  have e: "applyOps ?ops newFileIndex = (Normal (), ?s)" by code_simp
  from guarded_ops_invariant [OF g] obtain s where
    r: "applyOps ?ops newFileIndex = (Normal (), s)" and v: "postingsValid s" by blast
  from r e have "s = ?s" by simp
  with v have "postingsValid ?s" by simp
  with g show ?thesis by (rule conjI)
qed

section \<open>Snapshots\<close>

lemma update_fresh: "k \<notin> fst ` set al \<Longrightarrow> AList.update k v al = al @ [(k, v)]"
  by (induction al) auto

lemma foldl_update_distinct:
  "distinct (map fst (acc @ al)) \<Longrightarrow> foldl (\<lambda>m (k, v). AList.update k v m) acc al = acc @ al"
proof (induction al arbitrary: acc)
  case Nil
  then show ?case by simp
next
  case (Cons kv al)
  obtain k v where kv: "kv = (k, v)" by (cases kv)
  from Cons.prems kv have fresh: "k \<notin> fst ` set acc" by auto
  from Cons.prems kv have "distinct (map fst ((acc @ [(k, v)]) @ al))" by simp
  from Cons.IH [OF this] fresh kv show ?case by (simp add: update_fresh)
qed

lemma newMap_distinct: "distinct (map fst al) \<Longrightarrow> newMap al = al"
  using foldl_update_distinct [of "[]" al] by (simp add: newMap_def)

lemma phraseCandidates_cong:
  "files s' = files s \<Longrightarrow> filesList s' = filesList s \<Longrightarrow> phraseCandidates q s' = phraseCandidates q s"
  by (simp add: phraseCandidates_def)

lemma tokenCandidates_cong:
  "files s' = files s \<Longrightarrow> filesList s' = filesList s \<Longrightarrow>
   (\<forall>tok. getPost (wordIndex s') tok = getPost (wordIndex s) tok) \<Longrightarrow>
   tokenCandidates q s' = tokenCandidates q s"
  by (simp add: tokenCandidates_def candidateIndices_def)

lemma matchFiles_cong:
  assumes "consistent s" and "consistent s'" and "files s' = files s" and "filesList s' = filesList s"
  shows "\<exists>ms. matchFiles q s' = Some (Normal ms, s') \<and> matchFiles q s = Some (Normal ms, s)"
proof -
  from assms have g: "\<forall>tok. getPost (wordIndex s') tok = getPost (wordIndex s) tok"
    by (simp add: consistent_def)
  show ?thesis
  proof (cases "1 < length (cjkMatch q)")
    case True
    from matchFiles_phrase [OF assms(1) True] matchFiles_phrase [OF assms(2) True]
      phraseCandidates_cong [OF assms(3,4), of q]
    show ?thesis by simp
  next
    case False
    then have le: "length (cjkMatch q) \<le> 1" by simp
    from matchFiles_token [OF assms(1) le] matchFiles_token [OF assms(2) le]
      tokenCandidates_cong [OF assms(3,4) g, of q]
    show ?thesis by simp
  qed
qed

section \<open>Serialization round trip\<close>

text \<open>
  Claim C7. Deserializing the snapshot of a consistent index, into any index object, ends
  normally in an index with the same \<open>files\<close> (paths, file names, contents, modification
  times) and the same \<open>filesList\<close> (paths, names); its rebuilt \<open>wordIndex\<close> has the same
  posting set for every word, and every query has the same candidates and the same result
  page in both.
\<close>

theorem serialize_roundtrip:
  assumes "consistent s"
  shows "\<exists>s'. deserialize (serialize s) s0 = (Normal (), s')
     \<and> files s' = files s \<and> filesList s' = filesList s
     \<and> (\<forall>tok. getPost (wordIndex s') tok = getPost (wordIndex s) tok)
     \<and> consistent s'
     \<and> (\<forall>query. \<exists>ms. matchFiles query s' = Some (Normal ms, s')
           \<and> matchFiles query s = Some (Normal ms, s))
     \<and> (\<forall>query pg perPage. \<exists>r. search query pg perPage s' = Some (Normal r, s')
           \<and> search query pg perPage s = Some (Normal r, s))"
proof -
  from assms have df: "distinct (map fst (files s))" by (simp add: consistent_def)
  let ?s1 = "s0\<lparr>files := files s, filesList := filesList s\<rparr>"
  have d: "deserialize (serialize s) s0 = rebuildIndices ?s1"
    by (simp add: deserialize_def serialize_def newMap_distinct [OF df])
  have "\<forall>f\<in>set (filesList ?s1). map_of (files ?s1) (path f) \<noteq> None"
    using consistent_paths [OF assms] by simp
  from rebuildIndices_ok [OF this] obtain wi' where
    r: "rebuildIndices ?s1 = (Normal (), ?s1\<lparr>wordIndex := wi'\<rparr>)"
    and g: "\<forall>tok. getPost wi' tok = holders (files ?s1) 0 (filesList ?s1) tok" by blast
  let ?s' = "?s1\<lparr>wordIndex := wi'\<rparr>"
  have fs: "files ?s' = files s" and fl: "filesList ?s' = filesList s" by simp_all
  have gp: "\<forall>tok. getPost (wordIndex ?s') tok = getPost (wordIndex s) tok"
    using g assms by (simp add: consistent_def)
  have c': "consistent ?s'"
    using assms g by (simp add: consistent_def)
  have mf: "\<forall>query. \<exists>ms. matchFiles query ?s' = Some (Normal ms, ?s')
           \<and> matchFiles query s = Some (Normal ms, s)"
    using matchFiles_cong [OF assms c' fs fl] by blast
  have sf: "\<forall>query pg perPage. \<exists>r. search query pg perPage ?s' = Some (Normal r, ?s')
           \<and> search query pg perPage s = Some (Normal r, s)"
  proof (intro allI)
    fix query pg perPage
    from mf obtain ms where a: "matchFiles query ?s' = Some (Normal ms, ?s')"
      and b: "matchFiles query s = Some (Normal ms, s)" by blast
    from search_ok [OF a] search_ok [OF b]
    show "\<exists>r. search query pg perPage ?s' = Some (Normal r, ?s')
           \<and> search query pg perPage s = Some (Normal r, s)" by blast
  qed
  show ?thesis
  proof (intro exI [of _ ?s'] conjI)
    show "deserialize (serialize s) s0 = (Normal (), ?s')" by (simp only: d r)
    show "files ?s' = files s" by (rule fs)
    show "filesList ?s' = filesList s" by (rule fl)
    show "\<forall>tok. getPost (wordIndex ?s') tok = getPost (wordIndex s) tok" by (rule gp)
    show "consistent ?s'" by (rule c')
    show "\<forall>query. \<exists>ms. matchFiles query ?s' = Some (Normal ms, ?s')
           \<and> matchFiles query s = Some (Normal ms, s)" by (rule mf)
    show "\<forall>query pg perPage. \<exists>r. search query pg perPage ?s' = Some (Normal r, ?s')
           \<and> search query pg perPage s = Some (Normal r, s)" by (rule sf)
  qed
qed

theorem serialize_roundtrip_witness:
  "consistent indexAB
   \<and> deserialize (serialize indexAB) newFileIndex = (Normal (), indexAB)
   \<and> (\<exists>ms. matchFiles (str ''beta'') indexAB = Some (Normal ms, indexAB))"
proof -
  have e: "deserialize (serialize indexAB) newFileIndex = (Normal (), indexAB)" by code_simp
  from serialize_roundtrip [OF consistent_indexAB, of newFileIndex] obtain s' where
    d: "deserialize (serialize indexAB) newFileIndex = (Normal (), s')"
    and m: "\<forall>query. \<exists>ms. matchFiles query s' = Some (Normal ms, s')
           \<and> matchFiles query indexAB = Some (Normal ms, indexAB)" by blast
  from m have "\<exists>ms. matchFiles (str ''beta'') indexAB = Some (Normal ms, indexAB)" by blast
  with consistent_indexAB e show ?thesis by blast
qed

section \<open>The synchronization loops\<close>

lemma map_of_files_addFile:
  "map_of (files (addFile p n c t s)) = (map_of (files s))(p \<mapsto> \<lparr>filename = n, content = c, mtime = t\<rparr>)"
  by (simp add: files_addFile update_conv')

lemma consistent_removeFile_map:
  assumes "consistent s"
  shows "\<exists>s'. removeFile p s = (Normal (), s') \<and> consistent s'
           \<and> map_of (files s') = (map_of (files s))(p := None)"
proof (cases "map_of (files s) p")
  case None
  then have "(map_of (files s))(p := None) = map_of (files s)" by (simp add: fun_upd_idem)
  with None assms show ?thesis by (simp add: removeFile_absent)
next
  case (Some fd)
  then have "map_of (files s) p \<noteq> None" by simp
  from removeFile_present [OF assms this] show ?thesis
    by (auto simp: delete_conv')
qed

lemma reindexFile_ok:
  assumes "consistent s"
  shows "\<exists>s'. reindexFile fs p t (s, rd)
             = ((if fs p = None then Throw ReadError else Normal ()), (s', rd @ [p]))
           \<and> consistent s'
           \<and> map_of (files s') = (map_of (files s))
                (p := map_option (\<lambda>text. \<lparr>filename = basename p, content = text, mtime = t\<rparr>) (fs p))"
proof -
  obtain s1 where r: "(if map_of (files s) p \<noteq> None then removeFile p s else (Normal (), s)) = (Normal (), s1)"
    and c1: "consistent s1" and m1: "map_of (files s1) = (map_of (files s))(p := None)"
  proof (cases "map_of (files s) p")
    case None
    then have "(map_of (files s))(p := None) = map_of (files s)" by (simp add: fun_upd_idem)
    with None assms that [of s] show ?thesis by simp
  next
    case (Some fd)
    from consistent_removeFile_map [OF assms, of p] obtain s' where
      "removeFile p s = (Normal (), s')" "consistent s'"
      "map_of (files s') = (map_of (files s))(p := None)" by blast
    with Some that [of s'] show ?thesis by simp
  qed
  from m1 have fresh: "map_of (files s1) p = None" by simp
  show ?thesis
  proof (cases "fs p")
    case None
    with r c1 m1 show ?thesis by (simp add: reindexFile_def)
  next
    case (Some body)
    let ?s' = "addFile p (basename p) body t s1"
    have "consistent ?s'" by (rule consistent_addFile [OF c1 fresh])
    moreover have "map_of (files ?s') = (map_of (files s))
        (p \<mapsto> \<lparr>filename = basename p, content = body, mtime = t\<rparr>)"
      by (simp add: map_of_files_addFile m1)
    ultimately show ?thesis using r Some by (simp add: reindexFile_def)
  qed
qed

lemma indexChangedFiles_ok:
  "consistent s \<Longrightarrow> distinct (map fst cur) \<Longrightarrow>
   \<exists>s'. indexChangedFiles fs old cur (s, rd)
          = (s', rd @ map fst (filter (\<lambda>(p, t). map_of old p \<noteq> Some t) cur))
     \<and> consistent s'
     \<and> (\<forall>p. map_of (files s') p =
           (case map_of cur p of
              None \<Rightarrow> map_of (files s) p
            | Some t \<Rightarrow>
                if map_of old p \<noteq> Some t
                then map_option (\<lambda>text. \<lparr>filename = basename p, content = text, mtime = t\<rparr>) (fs p)
                else map_of (files s) p))"
proof (induction cur arbitrary: s rd)
  case Nil
  then show ?case by simp
next
  case (Cons pt cur)
  obtain p0 t0 where pt: "pt = (p0, t0)" by (cases pt)
  from Cons.prems(2) pt have d: "distinct (map fst cur)" and nin: "p0 \<notin> fst ` set cur" by auto
  from nin have none: "map_of cur p0 = None" by (simp add: map_of_eq_None_iff)
  show ?case
  proof (cases "map_of old p0 \<noteq> Some t0")
    case True
    from reindexFile_ok [OF Cons.prems(1), of fs p0 t0 rd] obtain s1 where
      r: "snd (reindexFile fs p0 t0 (s, rd)) = (s1, rd @ [p0])" and c1: "consistent s1"
      and m1: "map_of (files s1) = (map_of (files s))
                (p0 := map_option (\<lambda>text. \<lparr>filename = basename p0, content = text, mtime = t0\<rparr>) (fs p0))"
      by force
    from Cons.IH [OF c1 d, of "rd @ [p0]"] obtain s' where
      i: "indexChangedFiles fs old cur (s1, rd @ [p0])
          = (s', (rd @ [p0]) @ map fst (filter (\<lambda>(p, t). map_of old p \<noteq> Some t) cur))"
      and c': "consistent s'"
      and m': "\<forall>p. map_of (files s') p =
           (case map_of cur p of
              None \<Rightarrow> map_of (files s1) p
            | Some t \<Rightarrow>
                if map_of old p \<noteq> Some t
                then map_option (\<lambda>text. \<lparr>filename = basename p, content = text, mtime = t\<rparr>) (fs p)
                else map_of (files s1) p)"
      by blast
    have "\<forall>p. map_of (files s') p =
           (case map_of (pt # cur) p of
              None \<Rightarrow> map_of (files s) p
            | Some t \<Rightarrow>
                if map_of old p \<noteq> Some t
                then map_option (\<lambda>text. \<lparr>filename = basename p, content = text, mtime = t\<rparr>) (fs p)
                else map_of (files s) p)"
      using m' m1 none True pt by (auto split: option.splits)
    with i c' r True pt show ?thesis by simp
  next
    case False
    from Cons.IH [OF Cons.prems(1) d, of rd] obtain s' where
      i: "indexChangedFiles fs old cur (s, rd)
          = (s', rd @ map fst (filter (\<lambda>(p, t). map_of old p \<noteq> Some t) cur))"
      and c': "consistent s'"
      and m': "\<forall>p. map_of (files s') p =
           (case map_of cur p of
              None \<Rightarrow> map_of (files s) p
            | Some t \<Rightarrow>
                if map_of old p \<noteq> Some t
                then map_option (\<lambda>text. \<lparr>filename = basename p, content = text, mtime = t\<rparr>) (fs p)
                else map_of (files s) p)"
      by blast
    have "\<forall>p. map_of (files s') p =
           (case map_of (pt # cur) p of
              None \<Rightarrow> map_of (files s) p
            | Some t \<Rightarrow>
                if map_of old p \<noteq> Some t
                then map_option (\<lambda>text. \<lparr>filename = basename p, content = text, mtime = t\<rparr>) (fs p)
                else map_of (files s) p)"
      using m' none False pt by (auto split: option.splits)
    with i c' False pt show ?thesis by simp
  qed
qed

lemma removeDeletedFiles_ok:
  "consistent s \<Longrightarrow>
   \<exists>s'. removeDeletedFiles cur ks s = (Normal (), s') \<and> consistent s'
     \<and> (\<forall>p. map_of (files s') p
           = (if p \<in> set ks \<and> map_of cur p = None then None else map_of (files s) p))"
proof (induction ks arbitrary: s)
  case Nil
  then show ?case by simp
next
  case (Cons k ks)
  show ?case
  proof (cases "map_of cur k = None")
    case True
    from consistent_removeFile_map [OF Cons.prems, of k] obtain s1 where
      r: "removeFile k s = (Normal (), s1)" and c1: "consistent s1"
      and m1: "map_of (files s1) = (map_of (files s))(k := None)" by blast
    from Cons.IH [OF c1] obtain s' where
      i: "removeDeletedFiles cur ks s1 = (Normal (), s')" and c': "consistent s'"
      and m': "\<forall>p. map_of (files s') p
           = (if p \<in> set ks \<and> map_of cur p = None then None else map_of (files s1) p)" by blast
    have m: "\<forall>p. map_of (files s') p
           = (if p \<in> set (k # ks) \<and> map_of cur p = None then None else map_of (files s) p)"
      using m' m1 True by auto
    have "removeDeletedFiles cur (k # ks) s = removeDeletedFiles cur ks s1"
      using True r by simp
    with i have "removeDeletedFiles cur (k # ks) s = (Normal (), s')" by simp
    with c' m show ?thesis by blast
  next
    case False
    from Cons.IH [OF Cons.prems] obtain s' where
      i: "removeDeletedFiles cur ks s = (Normal (), s')" and c': "consistent s'"
      and m': "\<forall>p. map_of (files s') p
           = (if p \<in> set ks \<and> map_of cur p = None then None else map_of (files s) p)" by blast
    have m: "\<forall>p. map_of (files s') p
           = (if p \<in> set (k # ks) \<and> map_of cur p = None then None else map_of (files s) p)"
      using m' False by auto
    have "removeDeletedFiles cur (k # ks) s = removeDeletedFiles cur ks s"
      using False by auto
    with i have "removeDeletedFiles cur (k # ks) s = (Normal (), s')" by simp
    with c' m show ?thesis by blast
  qed
qed

section \<open>Delta synchronization\<close>

text \<open>
  The synchronization block of \<open>initializeIndex\<close>, run on a consistent index with a
  current-state table of distinct paths, ends normally with a consistent index. It reads
  exactly the paths whose current time differs from the persisted one (or that have none).
  A path with equal times keeps its entry of \<open>files\<close> and is not read. A path with a new
  or different time whose read succeeds has the fresh content, its base name and the new
  time. A path of the persisted table that the current table lacks has no entry. When the
  index held the paths of the persisted table and every read succeeds, the index holds
  exactly the paths of the current table.
\<close>

lemma delta_sync:
  assumes "consistent s" and "distinct (map fst currentFiles)"
  shows "\<exists>s' rd. syncIndex fs currentFiles oldMTimes s = (Normal (), (s', rd))
     \<and> consistent s'
     \<and> rd = map fst (filter (\<lambda>(p, t). map_of oldMTimes p \<noteq> Some t) currentFiles)
     \<and> (\<forall>p t. map_of currentFiles p = Some t \<and> map_of oldMTimes p = Some t
           \<longrightarrow> map_of (files s') p = map_of (files s) p \<and> p \<notin> set rd)
     \<and> (\<forall>p t. map_of currentFiles p = Some t \<and> map_of oldMTimes p \<noteq> Some t
           \<longrightarrow> p \<in> set rd
             \<and> (\<forall>body. fs p = Some body
                   \<longrightarrow> map_of (files s') p = Some \<lparr>filename = basename p, content = body, mtime = t\<rparr>))
     \<and> (\<forall>p. p \<in> set (map fst oldMTimes) \<and> map_of currentFiles p = None
           \<longrightarrow> map_of (files s') p = None)
     \<and> (set (map fst (files s)) = set (map fst oldMTimes) \<and> (\<forall>p\<in>set rd. fs p \<noteq> None)
           \<longrightarrow> set (map fst (files s')) = set (map fst currentFiles))"
proof -
  let ?ch = "\<lambda>(p, t). map_of oldMTimes p \<noteq> Some t"
  let ?rd = "map fst (filter ?ch currentFiles)"
  from indexChangedFiles_ok [OF assms, of fs oldMTimes "[]"] obtain s1 where
    i: "indexChangedFiles fs oldMTimes currentFiles (s, []) = (s1, ?rd)"
    and c1: "consistent s1"
    and m1: "\<forall>p. map_of (files s1) p =
           (case map_of currentFiles p of
              None \<Rightarrow> map_of (files s) p
            | Some t \<Rightarrow>
                if map_of oldMTimes p \<noteq> Some t
                then map_option (\<lambda>text. \<lparr>filename = basename p, content = text, mtime = t\<rparr>) (fs p)
                else map_of (files s) p)"
    by auto
  from removeDeletedFiles_ok [OF c1, of currentFiles "map fst oldMTimes"] obtain s' where
    r: "removeDeletedFiles currentFiles (map fst oldMTimes) s1 = (Normal (), s')"
    and c': "consistent s'"
    and m': "\<forall>p. map_of (files s') p
           = (if p \<in> set (map fst oldMTimes) \<and> map_of currentFiles p = None then None
              else map_of (files s1) p)"
    by blast
  have run: "syncIndex fs currentFiles oldMTimes s = (Normal (), (s', ?rd))"
    by (simp add: syncIndex_def i r)
  have inrd: "p \<in> set ?rd \<longleftrightarrow> map_of oldMTimes p \<noteq> Some t"
    if "map_of currentFiles p = Some t" for p t
  proof
    assume "p \<in> set ?rd"
    then obtain t' where t': "(p, t') \<in> set currentFiles" and ch: "map_of oldMTimes p \<noteq> Some t'"
      by auto
    from map_of_is_SomeI [OF assms(2) t'] that have "t' = t" by simp
    with ch show "map_of oldMTimes p \<noteq> Some t" by simp
  next
    assume ch: "map_of oldMTimes p \<noteq> Some t"
    from that have "(p, t) \<in> set currentFiles" by (rule map_of_SomeD)
    with ch have "(p, t) \<in> set (filter ?ch currentFiles)" by simp
    then have "fst (p, t) \<in> set ?rd" by (subst set_map) (rule imageI)
    then show "p \<in> set ?rd" by simp
  qed
  have after: "map_of (files s') p = map_of (files s1) p"
    if "map_of currentFiles p = Some t" for p t
    using m' [rule_format, of p] that by simp
  have same: "\<forall>p t. map_of currentFiles p = Some t \<and> map_of oldMTimes p = Some t
           \<longrightarrow> map_of (files s') p = map_of (files s) p \<and> p \<notin> set ?rd"
  proof (intro allI impI)
    fix p t
    assume h: "map_of currentFiles p = Some t \<and> map_of oldMTimes p = Some t"
    then have c: "map_of currentFiles p = Some t" and o: "map_of oldMTimes p = Some t" by simp_all
    have "map_of (files s1) p = map_of (files s) p"
      using m1 [rule_format, of p] c o by simp
    with after [OF c] have a: "map_of (files s') p = map_of (files s) p" by simp
    from inrd [OF c] o have "p \<notin> set ?rd" by simp
    with a show "map_of (files s') p = map_of (files s) p \<and> p \<notin> set ?rd" by (rule conjI)
  qed
  have fresh: "\<forall>p t. map_of currentFiles p = Some t \<and> map_of oldMTimes p \<noteq> Some t
           \<longrightarrow> p \<in> set ?rd
             \<and> (\<forall>body. fs p = Some body
                   \<longrightarrow> map_of (files s') p = Some \<lparr>filename = basename p, content = body, mtime = t\<rparr>)"
  proof (intro allI impI conjI)
    fix p t
    assume h: "map_of currentFiles p = Some t \<and> map_of oldMTimes p \<noteq> Some t"
    then have c: "map_of currentFiles p = Some t" and o: "map_of oldMTimes p \<noteq> Some t" by simp_all
    from inrd [OF c] o show "p \<in> set ?rd" by simp
    fix body
    assume b: "fs p = Some body"
    have "map_of (files s1) p = Some \<lparr>filename = basename p, content = body, mtime = t\<rparr>"
      using m1 [rule_format, of p] c o b by simp
    with after [OF c]
    show "map_of (files s') p = Some \<lparr>filename = basename p, content = body, mtime = t\<rparr>" by simp
  qed
  have gone: "\<forall>p. p \<in> set (map fst oldMTimes) \<and> map_of currentFiles p = None
           \<longrightarrow> map_of (files s') p = None"
    using m' by simp
  have exact: "set (map fst (files s)) = set (map fst oldMTimes) \<and> (\<forall>p\<in>set ?rd. fs p \<noteq> None)
           \<longrightarrow> set (map fst (files s')) = set (map fst currentFiles)"
  proof
    assume h: "set (map fst (files s)) = set (map fst oldMTimes) \<and> (\<forall>p\<in>set ?rd. fs p \<noteq> None)"
    have "map_of (files s') p \<noteq> None \<longleftrightarrow> map_of currentFiles p \<noteq> None" for p
    proof (cases "map_of currentFiles p")
      case None
      show ?thesis
      proof (cases "p \<in> set (map fst oldMTimes)")
        case True
        with None gone show ?thesis by simp
      next
        case False
        with h have "map_of (files s) p = None" by (simp add: map_of_eq_None_iff)
        moreover have "map_of (files s1) p = map_of (files s) p"
          using m1 [rule_format, of p] None by simp
        moreover have "map_of (files s') p = map_of (files s1) p"
          using m' [rule_format, of p] False by simp
        ultimately show ?thesis using None by simp
      qed
    next
      case (Some t)
      show ?thesis
      proof (cases "map_of oldMTimes p = Some t")
        case True
        then have "map_of oldMTimes p \<noteq> None" by simp
        then have "p \<in> set (map fst oldMTimes)" by (simp add: map_of_eq_None_iff)
        with h have "map_of (files s) p \<noteq> None" by (simp add: map_of_eq_None_iff)
        with same Some True show ?thesis by simp
      next
        case False
        with inrd [OF Some] h have "fs p \<noteq> None" by blast
        then obtain body where "fs p = Some body" by auto
        with fresh Some False show ?thesis by simp
      qed
    qed
    then have "dom (map_of (files s')) = dom (map_of currentFiles)" by (auto simp: dom_def)
    then show "set (map fst (files s')) = set (map fst currentFiles)"
      by (simp add: dom_map_of_conv_image_fst)
  qed
  show ?thesis
    by (intro exI [of _ s'] exI [of _ ?rd] conjI refl) (fact run, fact c', fact same, fact fresh, fact gone, fact exact)
qed

lemma delta_sync_example:
  "consistent indexAB
   \<and> distinct (map fst [(str ''/d/a.md'', 1 :: int), (str ''/d/c.md'', 3)])
   \<and> syncIndex diskC [(str ''/d/a.md'', 1), (str ''/d/c.md'', 3)]
         [(str ''/d/a.md'', 1), (str ''/d/b.md'', 2)] indexAB
       = (Normal (),
          (\<lparr>files = [(str ''/d/a.md'', \<lparr>filename = str ''a.md'', content = str ''alpha'', mtime = 1\<rparr>),
                     (str ''/d/c.md'', \<lparr>filename = str ''c.md'', content = str ''gamma'', mtime = 3\<rparr>)],
            wordIndex = [(str ''alpha'', [0]), (str ''gamma'', [1])],
            filesList = [\<lparr>path = str ''/d/a.md'', name = str ''a.md''\<rparr>,
                         \<lparr>path = str ''/d/c.md'', name = str ''c.md''\<rparr>]\<rparr>,
           [str ''/d/c.md'']))
   \<and> consistent
         \<lparr>files = [(str ''/d/a.md'', \<lparr>filename = str ''a.md'', content = str ''alpha'', mtime = 1\<rparr>),
                     (str ''/d/c.md'', \<lparr>filename = str ''c.md'', content = str ''gamma'', mtime = 3\<rparr>)],
            wordIndex = [(str ''alpha'', [0]), (str ''gamma'', [1])],
            filesList = [\<lparr>path = str ''/d/a.md'', name = str ''a.md''\<rparr>,
                         \<lparr>path = str ''/d/c.md'', name = str ''c.md''\<rparr>]\<rparr>"
proof -
  let ?cur = "[(str ''/d/a.md'', 1 :: int), (str ''/d/c.md'', 3)]"
  let ?old = "[(str ''/d/a.md'', 1 :: int), (str ''/d/b.md'', 2)]"
  let ?s = "\<lparr>files = [(str ''/d/a.md'', \<lparr>filename = str ''a.md'', content = str ''alpha'', mtime = 1\<rparr>),
                     (str ''/d/c.md'', \<lparr>filename = str ''c.md'', content = str ''gamma'', mtime = 3\<rparr>)],
            wordIndex = [(str ''alpha'', [0]), (str ''gamma'', [1])],
            filesList = [\<lparr>path = str ''/d/a.md'', name = str ''a.md''\<rparr>,
                         \<lparr>path = str ''/d/c.md'', name = str ''c.md''\<rparr>]\<rparr>"
  have d: "distinct (map fst ?cur)" by code_simp
  have e: "syncIndex diskC ?cur ?old indexAB = (Normal (), (?s, [str ''/d/c.md'']))"
    by code_simp
  from delta_sync [OF consistent_indexAB d, of diskC ?old] obtain s' rd where
    r: "syncIndex diskC ?cur ?old indexAB = (Normal (), (s', rd))" and c: "consistent s'"
    by blast
  from r e have "s' = ?s" by simp
  with c have "consistent ?s" by simp
  with consistent_indexAB d e show ?thesis by (intro conjI)
qed

section \<open>Unreadable files\<close>

text \<open>
  Claim C9. The scheduled rebuild does not skip an unreadable file. With nothing persisted,
  an empty index and a scan that finds \<open>/d/a.md\<close>, whose read throws, and then
  \<open>/d/b.md\<close>, \<open>rebuildIndexCache\<close> leaves its \<open>try\<close> at the first file and never indexes
  the second, where the synchronization of \<open>initializeIndex\<close> indexes it. And when a file
  that is indexed has a new modification time and its read throws, the startup
  synchronization has already removed its document.
\<close>

theorem rebuild_aborts_on_unreadable_file:
  "rebuildIndexCache diskB [(str ''/d/a.md'', 1), (str ''/d/b.md'', 1)] [] newFileIndex
     = (Throw ReadError, (newFileIndex, [str ''/d/a.md'']))
   \<and> syncIndex diskB [(str ''/d/a.md'', 1), (str ''/d/b.md'', 1)] [] newFileIndex
     = (Normal (),
        (\<lparr>files = [(str ''/d/b.md'', \<lparr>filename = str ''b.md'', content = str ''beta'', mtime = 1\<rparr>)],
          wordIndex = [(str ''beta'', [0])],
          filesList = [\<lparr>path = str ''/d/b.md'', name = str ''b.md''\<rparr>]\<rparr>,
         [str ''/d/a.md'', str ''/d/b.md'']))
   \<and> syncIndex diskNone [(str ''/d/a.md'', 9)] [(str ''/d/a.md'', 1)]
         (addFile (str ''/d/a.md'') (str ''a.md'') (str ''alpha'') 1 newFileIndex)
     = (Normal (), (newFileIndex, [str ''/d/a.md'']))"
  by code_simp

section \<open>Phrase mode and Katakana\<close>

text \<open>
  Claim C1. A query of two or more CJK characters is claimed to run in phrase mode and to
  have as candidates the documents that contain it as a contiguous run on a line. The query
  of the three Katakana letters U+30AB, U+30BF, U+30CA has none of its characters in the
  class of \<open>cjkRegex\<close>, so \<open>search\<close> runs it in token mode, where it has no token:
  document K, whose line is this very run, is not a candidate. The query of the ideograph
  U+65E5 followed by the Katakana letter U+30AB counts one character of the class and runs
  in token mode as well: document H, which does not contain the query, is a candidate with
  no matching line.
\<close>

theorem phrase_mode_misses_katakana:
  "isKatakana 0x30AB \<and> isKatakana 0x30BF \<and> isKatakana 0x30CA
   \<and> splitLines (contentOf (files indexK) (filesList indexK ! 0)) = [[0x30AB, 0x30BF, 0x30CA]]
   \<and> sublist [0x30AB, 0x30BF, 0x30CA] [0x30AB, 0x30BF, 0x30CA :: int]
   \<and> cjkMatch [0x30AB, 0x30BF, 0x30CA] = []
   \<and> tokenize [0x30AB, 0x30BF, 0x30CA] = []
   \<and> matchFiles [0x30AB, 0x30BF, 0x30CA] indexK = Some (Normal [], indexK)
   \<and> search [0x30AB, 0x30BF, 0x30CA] 1 15 indexK
       = Some (Normal \<lparr>results = [], page = 1, totalPages = 0, total = 0\<rparr>, indexK)
   \<and> splitLines (contentOf (files indexK) (filesList indexK ! 1)) = [[0x65E5]]
   \<and> \<not> sublist [0x65E5, 0x30AB] [0x65E5 :: int]
   \<and> cjkMatch [0x65E5, 0x30AB] = [[0x65E5]]
   \<and> matchFiles [0x65E5, 0x30AB] indexK
       = Some (Normal [\<lparr>m_index = 1, m_path = str ''/d/h.md'', m_name = str ''h.md'',
                        m_content = [0x65E5], matches = 0\<rparr>], indexK)"
  by code_simp

section \<open>The startup function\<close>

text \<open>
  With \<open>require\<close> bound, both cache files in place, a snapshot of a consistent index and
  modification times that differ from the current ones, \<open>initializeIndex\<close> runs the
  synchronization block on an index with the documents of the snapshot.
\<close>

lemma deserialize_serialize:
  assumes "consistent s"
  shows "\<exists>s'. deserialize (serialize s) s0 = (Normal (), s')
     \<and> files s' = files s \<and> filesList s' = filesList s \<and> consistent s'"
proof -
  from assms have df: "distinct (map fst (files s))" by (simp add: consistent_def)
  let ?s1 = "s0\<lparr>files := files s, filesList := filesList s\<rparr>"
  have d: "deserialize (serialize s) s0 = rebuildIndices ?s1"
    by (simp add: deserialize_def serialize_def newMap_distinct [OF df])
  have "\<forall>f\<in>set (filesList ?s1). map_of (files ?s1) (path f) \<noteq> None"
    using consistent_paths [OF assms] by simp
  from rebuildIndices_ok [OF this] obtain wi' where
    r: "rebuildIndices ?s1 = (Normal (), ?s1\<lparr>wordIndex := wi'\<rparr>)"
    and g: "\<forall>tok. getPost wi' tok = holders (files ?s1) 0 (filesList ?s1) tok" by blast
  have "consistent (?s1\<lparr>wordIndex := wi'\<rparr>)"
    using assms g by (simp add: consistent_def)
  moreover have "deserialize (serialize s) s0 = (Normal (), ?s1\<lparr>wordIndex := wi'\<rparr>)"
    by (simp only: d r)
  ultimately show ?thesis by (intro exI [of _ "?s1\<lparr>wordIndex := wi'\<rparr>"]) simp
qed

lemma initializeIndex_delta:
  assumes "consistent s" and "mtimesChanged oldMTimes currentFiles"
  shows "\<exists>s'. consistent s' \<and> files s' = files s \<and> filesList s' = filesList s
     \<and> initializeIndex True fs currentFiles (Stored (serialize s)) (Stored oldMTimes) None
         = (case syncIndex fs currentFiles oldMTimes s' of (c, (s3, rd)) \<Rightarrow> (c, Some s3, rd))"
proof -
  from deserialize_serialize [OF assms(1), of newFileIndex] obtain s' where
    d: "deserialize (serialize s) newFileIndex = (Normal (), s')"
    and f: "files s' = files s" and l: "filesList s' = filesList s" and c: "consistent s'"
    by blast
  have fp: "fastPath currentFiles (Stored (serialize s)) (Stored oldMTimes) newFileIndex
      = Continue False newFileIndex"
    using assms(2) by (simp add: fastPath_def existsSync_def readParsed_def)
  have pr: "prepareIndex False (Stored (serialize s)) newFileIndex = s'"
    by (simp add: prepareIndex_def existsSync_def loadCache_def readParsed_def d)
  have "initializeIndex True fs currentFiles (Stored (serialize s)) (Stored oldMTimes) None
         = (case syncIndex fs currentFiles oldMTimes s' of (c, (s3, rd)) \<Rightarrow> (c, Some s3, rd))"
    by (simp add: initializeIndex_def fp pr existsSync_def readParsed_def)
  with c f l show ?thesis by blast
qed

section \<open>Delta synchronization in the shipped module\<close>

text \<open>
  Claim C4. For the prior cache of \<open>/d/a.md\<close> at time 1 and \<open>/d/b.md\<close> at time 2 and a
  current scan of \<open>/d/a.md\<close> at time 1 and \<open>/d/c.md\<close> at time 3, the index is claimed to
  hold exactly \<open>/d/a.md\<close> and \<open>/d/c.md\<close> after the synchronization. Under Node, where
  no \<open>require\<close> is bound in the module, \<open>initializeIndex\<close> throws a ReferenceError at
  line 210: the index is the empty one of line 207 and no file has been read. Where
  \<open>require\<close> is bound, the same call ends with exactly these two documents and has read
  \<open>/d/c.md\<close> only. The scheduled rebuild under Node leaves the index as it is, with
  \<open>/d/b.md\<close> still in it; and where \<open>require\<close> is bound, a scan that meets the new file
  first and cannot read it leaves \<open>/d/b.md\<close> in the index as well.
\<close>

theorem initializeIndex_throws_before_sync:
  "initializeIndex False diskC [(str ''/d/a.md'', 1), (str ''/d/c.md'', 3)]
       (Stored (serialize indexAB)) (Stored [(str ''/d/a.md'', 1), (str ''/d/b.md'', 2)]) None
     = (Throw ReferenceError, Some newFileIndex, [])
   \<and> initializeIndex True diskC [(str ''/d/a.md'', 1), (str ''/d/c.md'', 3)]
       (Stored (serialize indexAB)) (Stored [(str ''/d/a.md'', 1), (str ''/d/b.md'', 2)]) None
     = (Normal (),
        Some \<lparr>files = [(str ''/d/a.md'', \<lparr>filename = str ''a.md'', content = str ''alpha'', mtime = 1\<rparr>),
                     (str ''/d/c.md'', \<lparr>filename = str ''c.md'', content = str ''gamma'', mtime = 3\<rparr>)],
            wordIndex = [(str ''alpha'', [0]), (str ''gamma'', [1])],
            filesList = [\<lparr>path = str ''/d/a.md'', name = str ''a.md''\<rparr>,
                         \<lparr>path = str ''/d/c.md'', name = str ''c.md''\<rparr>]\<rparr>,
        [str ''/d/c.md''])
   \<and> scheduledRebuild False diskC [(str ''/d/a.md'', 1), (str ''/d/c.md'', 3)]
       (Stored [(str ''/d/a.md'', 1), (str ''/d/b.md'', 2)]) (Some indexAB)
     = (Some indexAB, [])
   \<and> scheduledRebuild True diskNone [(str ''/d/c.md'', 3), (str ''/d/a.md'', 1)]
       (Stored [(str ''/d/a.md'', 1), (str ''/d/b.md'', 2)]) (Some indexAB)
     = (Some indexAB, [str ''/d/c.md''])
   \<and> map_of (files indexAB) (str ''/d/b.md'')
     = Some \<lparr>filename = str ''b.md'', content = str ''beta'', mtime = 2\<rparr>"
  by code_simp

end
